theory Spec2Isabelle
  imports Main "HOL-Library.AList"
begin

section \<open>The node annotator handler (web/handlers/annotator.py)\<close>

text \<open>
  A shallow embedding of the annotator: the curie parser, the response transformer, the
  lookup adapter \<^verbatim>\<open>query_biothings\<close>, \<^verbatim>\<open>annotate_curie\<close> and
  \<^verbatim>\<open>annotate_trapi\<close>.

  Python values that come from JSON are values of \<open>json\<close>. A Python \<^verbatim>\<open>dict\<close> keeps its
  keys in insertion order, so a dict is an association list: \<open>map_of\<close> reads a key,
  \<open>AList.update\<close> assigns one (in place when the key exists, at the end otherwise) and
  \<open>AList.delete\<close> pops it. JSON numbers are integers here: no function below computes
  with a number. Strings are byte strings; the only character the code looks for is the
  ASCII colon.
\<close>

subsection \<open>Values and exceptions\<close>

datatype json =
    JNull
  | JBool bool
  | JInt int
  | JStr string
  | JList "json list"
  | JObj "(string \<times> json) list"

text \<open>An annotation record (one hit of the lookup service) is a dict.\<close>

type_synonym annotation = "(string \<times> json) list"

text \<open>
  The exceptions a call can end with. \<open>InvalidCurieError\<close> and \<open>TRAPIInputError\<close> are the
  handler's own (both subclasses of \<^verbatim>\<open>ValueError\<close>) and carry their message;
  \<open>KeyError\<close>, \<open>TypeError\<close> and \<open>AttributeError\<close> are the interpreter's; \<open>ClientError\<close>
  is whatever the external lookup client raises.
\<close>

datatype error =
    InvalidCurieError string
  | TRAPIInputError string
  | KeyError
  | TypeError
  | AttributeError
  | ClientError

text \<open>Python truthiness of a JSON value.\<close>

fun py_truthy :: "json \<Rightarrow> bool" where
  "py_truthy JNull = False"
| "py_truthy (JBool b) = b"
| "py_truthy (JInt n) = (n \<noteq> 0)"
| "py_truthy (JStr s) = (s \<noteq> [])"
| "py_truthy (JList xs) = (xs \<noteq> [])"
| "py_truthy (JObj kvs) = (kvs \<noteq> [])"

text \<open>A list comprehension over a function that may raise: the first exception wins.\<close>

fun map_err :: "('a \<Rightarrow> error + 'b) \<Rightarrow> 'a list \<Rightarrow> error + 'b list" where
  "map_err f [] = Inr []"
| "map_err f (x # xs) =
     (case f x of
        Inl e \<Rightarrow> Inl e
      | Inr y \<Rightarrow> (case map_err f xs of Inl e \<Rightarrow> Inl e | Inr ys \<Rightarrow> Inr (y # ys)))"

subsection \<open>The namespace table and the curie parser\<close>

text \<open>
  One entry of \<^verbatim>\<open>BIOLINK_PREFIX_to_BioThings\<close>. Every key of the Python dict is
  optional (the code reads each with \<^verbatim>\<open>.get\<close>); the \<^verbatim>\<open>converter\<close> key is commented
  out in every entry of the source.
\<close>

record namespace_rule =
  rule_type :: "string option"
  rule_field :: "string option"
  rule_keep_prefix :: "bool option"
  rule_converter :: "(string \<Rightarrow> string) option"

definition BIOLINK_PREFIX_to_BioThings :: "(string \<times> namespace_rule) list" where
  "BIOLINK_PREFIX_to_BioThings =
   [(''NCBIGene'', \<lparr>rule_type = Some ''gene'', rule_field = Some ''entrezgene'',
        rule_keep_prefix = None, rule_converter = None\<rparr>),
    (''ENSEMBL'', \<lparr>rule_type = Some ''gene'', rule_field = Some ''ensembl.gene'',
        rule_keep_prefix = None, rule_converter = None\<rparr>),
    (''UniProtKB'', \<lparr>rule_type = Some ''gene'', rule_field = Some ''uniprot.Swiss-Prot'',
        rule_keep_prefix = None, rule_converter = None\<rparr>),
    (''INCHIKEY'', \<lparr>rule_type = Some ''chem'', rule_field = None,
        rule_keep_prefix = None, rule_converter = None\<rparr>),
    (''CHEMBL.COMPOUND'', \<lparr>rule_type = Some ''chem'',
        rule_field = Some ''chembl.molecule_chembl_id'',
        rule_keep_prefix = None, rule_converter = None\<rparr>),
    (''PUBCHEM.COMPOUND'', \<lparr>rule_type = Some ''chem'', rule_field = Some ''pubchem.cid'',
        rule_keep_prefix = None, rule_converter = None\<rparr>),
    (''CHEBI'', \<lparr>rule_type = Some ''chem'', rule_field = Some ''chebi.id'',
        rule_keep_prefix = Some True, rule_converter = None\<rparr>),
    (''UNII'', \<lparr>rule_type = Some ''chem'', rule_field = Some ''unii.unii'',
        rule_keep_prefix = None, rule_converter = None\<rparr>),
    (''MONDO'', \<lparr>rule_type = Some ''disease'', rule_field = Some ''mondo.mondo'',
        rule_keep_prefix = Some True, rule_converter = None\<rparr>),
    (''DOID'', \<lparr>rule_type = Some ''disease'', rule_field = Some ''disease_ontology.doid'',
        rule_keep_prefix = Some True, rule_converter = None\<rparr>)]"

text \<open>\<^verbatim>\<open>curie.split(":", 1)\<close> on a string that contains a colon.\<close>

definition split_colon :: "string \<Rightarrow> string \<times> string" where
  "split_colon curie =
     (takeWhile (\<lambda>c. c \<noteq> CHR '':'') curie, tl (dropWhile (\<lambda>c. c \<noteq> CHR '':'') curie))"

text \<open>\<^verbatim>\<open>not _type\<close>: the type is missing (\<^verbatim>\<open>None\<close>) or the empty string.\<close>

definition type_falsy :: "string option \<Rightarrow> bool" where
  "type_falsy t = (case t of None \<Rightarrow> True | Some s \<Rightarrow> s = [])"

text \<open>
  What \<^verbatim>\<open>parse_curie\<close> returns: the pair, the type alone, the id alone, or \<^verbatim>\<open>None\<close>
  when neither was asked for (the function then falls off its end).
\<close>

datatype parsed =
    TypeAndId "string option" string
  | TypeOnly "string option"
  | IdOnly string
  | NoResult

definition parse_curie :: "string \<Rightarrow> bool \<Rightarrow> bool \<Rightarrow> error + parsed" where
  "parse_curie curie return_type return_id =
     (if CHR '':'' \<notin> set curie
      then Inl (InvalidCurieError (''Invalid input curie id: '' @ curie))
      else
        let (prefix, local_id) = split_colon curie;
            rule = map_of BIOLINK_PREFIX_to_BioThings prefix;
            type = (case rule of None \<Rightarrow> None | Some r \<Rightarrow> rule_type r);
            ident = (if return_id
                  then
                    let id1 = (if type_falsy type
                                  \<or> (case rule of
                                        None \<Rightarrow> False
                                      | Some r \<Rightarrow>
                                          (case rule_keep_prefix r of
                                             None \<Rightarrow> False
                                           | Some b \<Rightarrow> b))
                               then curie else local_id);
                        cvtr = (case rule of None \<Rightarrow> None | Some r \<Rightarrow> rule_converter r)
                    in (case cvtr of None \<Rightarrow> id1 | Some f \<Rightarrow> f curie)
                  else local_id)
        in if return_type \<and> return_id then Inr (TypeAndId type ident)
           else if return_type then Inr (TypeOnly type)
           else if return_id then Inr (IdOnly ident)
           else Inr NoResult)"

subsection \<open>The response transformer\<close>

text \<open>\<^verbatim>\<open>append_prefix(id, prefix)\<close> on a string; \<^verbatim>\<open>id.startswith(prefix)\<close> is a prefix test.\<close>

definition append_prefix :: "string \<Rightarrow> string \<Rightarrow> string" where
  "append_prefix ident pre =
     (if \<not> (take (length pre) ident = pre) then pre @ '':'' @ ident else ident)"

text \<open>\<^verbatim>\<open>needle in hay\<close> on two strings: the substring test.\<close>

fun str_contains :: "string \<Rightarrow> string \<Rightarrow> bool" where
  "str_contains needle [] = (needle = [])"
| "str_contains needle (c # cs) =
     (take (length needle) (c # cs) = needle \<or> str_contains needle cs)"

text \<open>
  The body of the loop \<^verbatim>\<open>for doc in xli\<close> in \<^verbatim>\<open>_append_mesh_prefix\<close>, on one item.
  \<^verbatim>\<open>"mesh_id" in doc\<close> is a key test on a dict, a substring test on a string, a
  membership test on a list, and raises \<^verbatim>\<open>TypeError\<close> on anything else. When the test
  holds, \<^verbatim>\<open>doc["mesh_id"]\<close> reads the key of a dict and raises \<^verbatim>\<open>TypeError\<close> on a
  string or a list; \<^verbatim>\<open>append_prefix\<close> raises \<^verbatim>\<open>AttributeError\<close> when the value is not
  a string.
\<close>

definition mesh_doc :: "json \<Rightarrow> error + json" where
  "mesh_doc doc =
     (case doc of
        JObj d \<Rightarrow>
          (case map_of d ''mesh_id'' of
             None \<Rightarrow> Inr doc
           | Some v \<Rightarrow>
               (case v of
                  JStr s \<Rightarrow>
                    Inr (JObj (AList.update ''mesh_id'' (JStr (append_prefix s ''MESH'')) d))
                | _ \<Rightarrow> Inl AttributeError))
      | JStr s \<Rightarrow> if str_contains ''mesh_id'' s then Inl TypeError else Inr doc
      | JList xs \<Rightarrow> if JStr ''mesh_id'' \<in> set xs then Inl TypeError else Inr doc
      | _ \<Rightarrow> Inl TypeError)"

text \<open>
  \<^verbatim>\<open>_append_mesh_prefix(chembl)\<close>: \<^verbatim>\<open>chembl.get\<close> exists on a dict only. The loop runs
  over the items of a list, the keys of a dict or the characters of a string, and only
  the dicts inside a list can be changed by it.
\<close>

definition append_mesh_prefix :: "json \<Rightarrow> error + json" where
  "append_mesh_prefix chembl =
     (case chembl of
        JObj c \<Rightarrow>
          (case map_of c ''drug_indications'' of
             None \<Rightarrow> Inr chembl
           | Some xli \<Rightarrow>
               (case xli of
                  JList docs \<Rightarrow>
                    (case map_err mesh_doc docs of
                       Inl e \<Rightarrow> Inl e
                     | Inr docs' \<Rightarrow>
                         Inr (JObj (AList.update ''drug_indications'' (JList docs') c)))
                | JObj d \<Rightarrow>
                    (case map_err mesh_doc (map (\<lambda>kv. JStr (fst kv)) d) of
                       Inl e \<Rightarrow> Inl e
                     | Inr _ \<Rightarrow> Inr chembl)
                | JStr s \<Rightarrow>
                    (case map_err mesh_doc (map (\<lambda>ch. JStr [ch]) s) of
                       Inl e \<Rightarrow> Inl e
                     | Inr _ \<Rightarrow> Inr chembl)
                | _ \<Rightarrow> Inl TypeError))
      | _ \<Rightarrow> Inl AttributeError)"

definition transform_chembl_drug_indications :: "annotation \<Rightarrow> error + annotation" where
  "transform_chembl_drug_indications res =
     (case map_of res ''chembl'' of
        None \<Rightarrow> Inr res
      | Some chembl \<Rightarrow>
          if \<not> py_truthy chembl then Inr res
          else
            (case chembl of
               JList cs \<Rightarrow>
                 (case map_err append_mesh_prefix cs of
                    Inl e \<Rightarrow> Inl e
                  | Inr cs' \<Rightarrow> Inr (AList.update ''chembl'' (JList cs') res))
             | _ \<Rightarrow>
                 (case append_mesh_prefix chembl of
                    Inl e \<Rightarrow> Inl e
                  | Inr chembl' \<Rightarrow> Inr (AList.update ''chembl'' chembl' res))))"

text \<open>
  \<^verbatim>\<open>ResponseTransformer.transform\<close> calls every method whose name starts with
  \<^verbatim>\<open>_transform_\<close>, in the order of their names; the class has one.
\<close>

definition transform_rules :: "(annotation \<Rightarrow> error + annotation) list" where
  "transform_rules = [transform_chembl_drug_indications]"

fun apply_rules :: "(annotation \<Rightarrow> error + annotation) list \<Rightarrow> annotation \<Rightarrow> error + annotation"
where
  "apply_rules [] res = Inr res"
| "apply_rules (fn # fns) res =
     (case fn res of Inl e \<Rightarrow> Inl e | Inr res' \<Rightarrow> apply_rules fns res')"

text \<open>\<^verbatim>\<open>Annotator.transform\<close>: drop \<^verbatim>\<open>query\<close> and \<^verbatim>\<open>_score\<close>, then apply the rules.\<close>

definition transform :: "annotation \<Rightarrow> error + annotation" where
  "transform res =
     apply_rules transform_rules (AList.delete ''_score'' (AList.delete ''query'' res))"

subsection \<open>The lookup adapter\<close>

text \<open>
  \<^verbatim>\<open>list2dict\<close> groups the hits by the value of a key. That value becomes a dict key, so
  it must be hashable (a list or a dict raises \<^verbatim>\<open>TypeError\<close>), and Python compares
  \<^verbatim>\<open>True\<close> and \<^verbatim>\<open>1\<close> (and \<^verbatim>\<open>False\<close> and \<^verbatim>\<open>0\<close>) as the same key.
\<close>

type_synonym by_query = "(json \<times> annotation list) list"

fun hashable :: "json \<Rightarrow> bool" where
  "hashable (JList xs) = False"
| "hashable (JObj kvs) = False"
| "hashable v = True"

fun key_norm :: "json \<Rightarrow> json" where
  "key_norm (JBool b) = JInt (if b then 1 else 0)"
| "key_norm v = v"

fun dict_get :: "by_query \<Rightarrow> json \<Rightarrow> annotation list option" where
  "dict_get [] k = None"
| "dict_get ((k', ds) # rest) k =
     (if key_norm k' = key_norm k then Some ds else dict_get rest k)"

text \<open>\<^verbatim>\<open>out[k] = [d]\<close> when the key is new, \<^verbatim>\<open>out[k].append(d)\<close> otherwise.\<close>

fun dict_add :: "json \<Rightarrow> annotation \<Rightarrow> by_query \<Rightarrow> by_query" where
  "dict_add k d [] = [(k, [d])]"
| "dict_add k d ((k', ds) # rest) =
     (if key_norm k' = key_norm k then (k', ds @ [d]) # rest
      else (k', ds) # dict_add k d rest)"

fun list2dict_loop :: "by_query \<Rightarrow> annotation list \<Rightarrow> string \<Rightarrow> error + by_query" where
  "list2dict_loop out [] key = Inr out"
| "list2dict_loop out (d # li) key =
     (case map_of d key of
        None \<Rightarrow> Inl KeyError
      | Some k \<Rightarrow>
          if \<not> hashable k then Inl TypeError
          else list2dict_loop (dict_add k d out) li key)"

definition list2dict :: "annotation list \<Rightarrow> string \<Rightarrow> error + by_query" where
  "list2dict li key = list2dict_loop [] li key"

text \<open>The per-type client configuration \<^verbatim>\<open>Annotator.annotator_clients\<close>.\<close>

record client_config =
  cfg_fields :: "string list"
  cfg_scopes :: "string list"

definition annotator_clients :: "(string \<times> client_config) list" where
  "annotator_clients =
   [(''gene'',
     \<lparr>cfg_fields = [''name'', ''symbol'', ''summary'', ''type_of_gene'', ''MIM'', ''HGNC'',
                    ''MGI'', ''RGD'', ''alias'', ''interpro''],
      cfg_scopes = [''entrezgene'', ''ensemblgene'', ''uniprot'', ''accession'', ''retired'']\<rparr>),
    (''chem'',
     \<lparr>cfg_fields = [''pubchem.cid'', ''pubchem.inchikey'', ''chembl.molecule_chembl_id'',
                    ''drugbank.id'', ''chebi.id'', ''unii.unii'', ''chebi.name'',
                    ''chembl.pref_name'', ''chebi.iupac'', ''chembl.smiles'', ''pubchem.inchi'',
                    ''pubchem.molecular_formula'', ''pubchem.molecular_weight'',
                    ''chembl.molecule_type'', ''chembl.structure_type'', ''chebi.relationship'',
                    ''unichem.rxnorm'', ''pharmgkb.trade_names'', ''chembl.drug_indications'',
                    ''aeolus.indications'', ''chembl.drug_mechanisms'',
                    ''chembl.atc_classifications'', ''chembl.max_phase'',
                    ''chembl.first_approval'', ''drugcentral.approval'',
                    ''chembl.first_in_class'', ''chembl.inorganic_flag'', ''chembl.prodrug'',
                    ''chembl.therapeutic_flag'', ''cheml.withdrawn_flag'',
                    ''drugcentral.drug_dosage'', ''ndc.routename'', ''ndc.producttypename'',
                    ''ndc.pharm_classes''],
      cfg_scopes = [''_id'', ''chebi.id'', ''chembl.molecule_chembl_id'', ''pubchem.cid'',
                    ''drugbank.id'', ''unii.unii'']\<rparr>),
    (''disease'',
     \<lparr>cfg_fields = [''disease_ontology.doidmondo.mondo'', ''umls.umls'',
                    ''disease_ontology.name'', ''mondo.labelmondo.definition'',
                    ''disease_ontology.def'', ''mondo.xrefs'', ''disease_ontology.xrefs'',
                    ''mondo.synonym'', ''disease_ontology.synonyms''],
      cfg_scopes = [''mondo.mondo'', ''disease_ontology.doid'', ''umls.umls'']\<rparr>)]"

text \<open>
  One call of \<^verbatim>\<open>client.querymany\<close>. The \<^verbatim>\<open>fields\<close> argument is the caller's string
  when it is given and not empty, and the configured list otherwise.
\<close>

datatype fields_arg = FieldsStr string | FieldsList "string list"

record lookup_call =
  call_type :: string
  call_ids :: "string list"
  call_scopes :: "string list"
  call_fields :: fields_arg

text \<open>
  The lookup clients are external: they are a parameter, a function from the call to the
  list of hits or to the exception it raises.
\<close>

type_synonym client = "lookup_call \<Rightarrow> error + annotation list"

text \<open>
  What a call leaves behind besides its result: the calls made to the lookup clients and
  the warnings written to the log, oldest first.
\<close>

record world =
  lookups :: "lookup_call list"
  warnings :: "string list"

definition query_biothings ::
  "client \<Rightarrow> string \<Rightarrow> string list \<Rightarrow> string option \<Rightarrow> world \<Rightarrow> (error + by_query) \<times> world"
where
  "query_biothings client node_type query_list fields_opt w =
     (case map_of annotator_clients node_type of
        None \<Rightarrow> (Inl KeyError, w)
      | Some cfg \<Rightarrow>
          let fields' = (case fields_opt of
                           None \<Rightarrow> FieldsList (cfg_fields cfg)
                         | Some s \<Rightarrow> if s = [] then FieldsList (cfg_fields cfg) else FieldsStr s);
              call = \<lparr>call_type = node_type, call_ids = query_list,
                      call_scopes = cfg_scopes cfg, call_fields = fields'\<rparr>;
              w' = w\<lparr>lookups := lookups w @ [call]\<rparr>
          in (case client call of
                Inl e \<Rightarrow> (Inl e, w')
              | Inr res \<Rightarrow> (list2dict res ''query'', w')))"

subsection \<open>Annotating one curie\<close>

text \<open>
  The value \<^verbatim>\<open>annotate_curie\<close> stores under the curie: the list of transformed records,
  or, with \<^verbatim>\<open>raw\<close>, the whole result of \<^verbatim>\<open>query_biothings\<close> (the dict from query id to
  records), which the function returns as it is.
\<close>

datatype curie_value = Records "annotation list" | ByQuery by_query

definition annotate_curie ::
  "client \<Rightarrow> string \<Rightarrow> bool \<Rightarrow> string option \<Rightarrow> world
     \<Rightarrow> (error + (string \<times> curie_value) list) \<times> world"
where
  "annotate_curie client curie raw fields_opt w =
     (case parse_curie curie True True of
        Inl e \<Rightarrow> (Inl e, w)
      | Inr (TypeAndId node_type ident) \<Rightarrow>
          (case node_type of
             None \<Rightarrow> (Inl (InvalidCurieError (''Unsupported Curie prefix: '' @ curie)), w)
           | Some t \<Rightarrow>
               if t = [] then (Inl (InvalidCurieError (''Unsupported Curie prefix: '' @ curie)), w)
               else
                 (case query_biothings client t [ident] fields_opt w of
                    (Inl e, w') \<Rightarrow> (Inl e, w')
                  | (Inr res, w') \<Rightarrow>
                      if \<not> raw then
                        (case dict_get res (JStr ident) of
                           None \<Rightarrow> (Inl KeyError, w')
                         | Some rs \<Rightarrow>
                             (case map_err transform rs of
                                Inl e \<Rightarrow> (Inl e, w')
                              | Inr rs' \<Rightarrow> (Inr [(curie, Records rs')], w')))
                      else (Inr [(curie, ByQuery res)], w')))
      | Inr _ \<Rightarrow> (Inl TypeError, w))"

subsection \<open>Annotating a TRAPI message\<close>

text \<open>
  \<^verbatim>\<open>get_dotfield_value\<close> belongs to the biothings library: it follows the dotted path
  with \<^verbatim>\<open>d[field]\<close> at every step. The path is given split at its dots. Subscripting
  with a string reads a key of a dict (\<^verbatim>\<open>KeyError\<close> when it is missing) and raises
  \<^verbatim>\<open>TypeError\<close> on every other JSON value.
\<close>

fun py_getitem :: "json \<Rightarrow> string \<Rightarrow> error + json" where
  "py_getitem (JObj kvs) k = (case map_of kvs k of None \<Rightarrow> Inl KeyError | Some v \<Rightarrow> Inr v)"
| "py_getitem v k = Inl TypeError"

fun get_dotfield_value :: "string list \<Rightarrow> json \<Rightarrow> error + json" where
  "get_dotfield_value [] d = py_getitem d []"
| "get_dotfield_value [f] d = py_getitem d f"
| "get_dotfield_value (f # fs) d =
     (case py_getitem d f of Inl e \<Rightarrow> Inl e | Inr v \<Rightarrow> get_dotfield_value fs v)"

type_synonym nodes = "(string \<times> json) list"

text \<open>
  The \<^verbatim>\<open>try\<close> block: a \<^verbatim>\<open>KeyError\<close> and a failed \<^verbatim>\<open>assert isinstance(node_d, dict)\<close>
  become \<^verbatim>\<open>TRAPIInputError\<close>; the handler does not catch a \<^verbatim>\<open>TypeError\<close>.
\<close>

definition input_nodes :: "json \<Rightarrow> error + nodes" where
  "input_nodes trapi_input =
     (case get_dotfield_value [''message'', ''knowledge_graph'', ''nodes''] trapi_input of
        Inl KeyError \<Rightarrow> Inl (TRAPIInputError ''Invalid input format'')
      | Inl e \<Rightarrow> Inl e
      | Inr (JObj node_d) \<Rightarrow> Inr node_d
      | Inr _ \<Rightarrow> Inl (TRAPIInputError ''Invalid input format''))"

text \<open>
  The truncation loop: \<^verbatim>\<open>i\<close> counts the nodes seen, the loop breaks at the first node
  with \<^verbatim>\<open>i > limit\<close>. \<^verbatim>\<open>if limit:\<close> skips it when the limit is \<^verbatim>\<open>None\<close> or \<^verbatim>\<open>0\<close>.
\<close>

fun limit_loop :: "int \<Rightarrow> int \<Rightarrow> nodes \<Rightarrow> nodes \<Rightarrow> nodes" where
  "limit_loop limit i acc [] = acc"
| "limit_loop limit i acc ((node_id, node) # rest) =
     (if i + 1 > limit then acc
      else limit_loop limit (i + 1) (AList.update node_id node acc) rest)"

definition truncate_nodes :: "int option \<Rightarrow> nodes \<Rightarrow> nodes" where
  "truncate_nodes limit node_d =
     (case limit of
        None \<Rightarrow> node_d
      | Some l \<Rightarrow> if l = 0 then node_d else limit_loop l 0 [] node_d)"

text \<open>
  The grouping loop fills \<^verbatim>\<open>node_list_by_type\<close>. A node id whose type is \<^verbatim>\<open>None\<close> (or
  empty) gets a warning and is left out; an exception of \<^verbatim>\<open>parse_curie\<close> is not caught.
  The last case is not reached: with these flags \<^verbatim>\<open>parse_curie\<close> returns the type alone.
\<close>

type_synonym groups = "(string \<times> string list) list"

definition skip_warning :: "string \<Rightarrow> string" where
  "skip_warning node_id = '' Unsupported Curie prefix: '' @ node_id @ ''. Skipped!''"

fun group_loop :: "groups \<Rightarrow> string list \<Rightarrow> world \<Rightarrow> (error + groups) \<times> world" where
  "group_loop acc [] w = (Inr acc, w)"
| "group_loop acc (node_id # rest) w =
     (case parse_curie node_id True False of
        Inl e \<Rightarrow> (Inl e, w)
      | Inr (TypeOnly node_type) \<Rightarrow>
          (case node_type of
             None \<Rightarrow> group_loop acc rest (w\<lparr>warnings := warnings w @ [skip_warning node_id]\<rparr>)
           | Some t \<Rightarrow>
               if t = []
               then group_loop acc rest (w\<lparr>warnings := warnings w @ [skip_warning node_id]\<rparr>)
               else
                 (case map_of acc t of
                    None \<Rightarrow> group_loop (AList.update t [node_id] acc) rest w
                  | Some ns \<Rightarrow> group_loop (AList.update t (ns @ [node_id]) acc) rest w))
      | Inr _ \<Rightarrow> (Inl TypeError, w))"

text \<open>One element of \<^verbatim>\<open>query_list\<close>: \<^verbatim>\<open>parse_curie(_id, return_type=False, return_id=True)\<close>.\<close>

definition query_id :: "string \<Rightarrow> error + string" where
  "query_id node_id =
     (case parse_curie node_id False True of
        Inl e \<Rightarrow> Inl e
      | Inr (IdOnly i) \<Rightarrow> Inr i
      | Inr _ \<Rightarrow> Inl TypeError)"

text \<open>\<^verbatim>\<open>dict(zip(query_list, node_list))\<close>: a later pair overwrites an earlier one.\<close>

definition dict_zip :: "string list \<Rightarrow> string list \<Rightarrow> (string \<times> string) list" where
  "dict_zip ks vs = fold (\<lambda>kv d. AList.update (fst kv) (snd kv) d) (zip ks vs) []"

text \<open>\<^verbatim>\<open>node_id_d[node_id]\<close> for a key of the result dict: the keys of \<^verbatim>\<open>node_id_d\<close> are strings.\<close>

definition orig_node :: "(string \<times> string) list \<Rightarrow> json \<Rightarrow> string option" where
  "orig_node node_id_d k = (case k of JStr s \<Rightarrow> map_of node_id_d s | _ \<Rightarrow> None)"

text \<open>The attribute envelope.\<close>

definition envelope :: "annotation list \<Rightarrow> json" where
  "envelope res =
     JObj [(''attribute_type_id'', JStr ''biothings_annotations''),
           (''value'', JList (map JObj res))]"

text \<open>
  The two assignments at the end of the inner loop, on the node \<^verbatim>\<open>node_d[orig_node_id]\<close>.
  With \<^verbatim>\<open>append\<close> the node must be a dict (\<^verbatim>\<open>TypeError\<close>) with an \<^verbatim>\<open>attributes\<close> key
  (\<^verbatim>\<open>KeyError\<close>) that holds a list (\<^verbatim>\<open>AttributeError\<close>: nothing else has \<^verbatim>\<open>append\<close>);
  without it the node must be a dict.
\<close>

definition attach :: "bool \<Rightarrow> json \<Rightarrow> json \<Rightarrow> error + json" where
  "attach do_append res node =
     (case node of
        JObj kvs \<Rightarrow>
          if do_append then
            (case map_of kvs ''attributes'' of
               None \<Rightarrow> Inl KeyError
             | Some (JList attrs) \<Rightarrow>
                 Inr (JObj (AList.update ''attributes'' (JList (attrs @ [res])) kvs))
             | Some _ \<Rightarrow> Inl AttributeError)
          else Inr (JObj (AList.update ''attributes'' (JList [res]) kvs))
      | _ \<Rightarrow> Inl TypeError)"

text \<open>
  The body of \<^verbatim>\<open>for node_id in res_by_id\<close>. The values of \<^verbatim>\<open>res_by_id\<close> are the lists
  built by \<^verbatim>\<open>list2dict\<close>, so of the two \<^verbatim>\<open>isinstance(res, list)\<close> branches the first runs.
\<close>

definition annotate_node ::
  "bool \<Rightarrow> bool \<Rightarrow> (string \<times> string) list \<Rightarrow> json \<Rightarrow> annotation list \<Rightarrow> nodes \<Rightarrow> error + nodes"
where
  "annotate_node do_append raw node_id_d node_id res node_d =
     (case orig_node node_id_d node_id of
        None \<Rightarrow> Inl KeyError
      | Some orig_node_id \<Rightarrow>
          (case (if \<not> raw then map_err transform res else Inr res) of
             Inl e \<Rightarrow> Inl e
           | Inr res' \<Rightarrow>
               (case map_of node_d orig_node_id of
                  None \<Rightarrow> Inl KeyError
                | Some node \<Rightarrow>
                    (case attach do_append (envelope res') node of
                       Inl e \<Rightarrow> Inl e
                     | Inr node' \<Rightarrow> Inr (AList.update orig_node_id node' node_d)))))"

fun annotate_results ::
  "bool \<Rightarrow> bool \<Rightarrow> (string \<times> string) list \<Rightarrow> by_query \<Rightarrow> nodes \<Rightarrow> error + nodes"
where
  "annotate_results do_append raw node_id_d [] node_d = Inr node_d"
| "annotate_results do_append raw node_id_d ((node_id, res) # rest) node_d =
     (case annotate_node do_append raw node_id_d node_id res node_d of
        Inl e \<Rightarrow> Inl e
      | Inr node_d' \<Rightarrow> annotate_results do_append raw node_id_d rest node_d')"

text \<open>The loop \<^verbatim>\<open>for node_type in node_list_by_type\<close>.\<close>

fun annotate_types ::
  "client \<Rightarrow> bool \<Rightarrow> bool \<Rightarrow> string option \<Rightarrow> groups \<Rightarrow> nodes \<Rightarrow> world
     \<Rightarrow> (error + nodes) \<times> world"
where
  "annotate_types client do_append raw fields_opt [] node_d w = (Inr node_d, w)"
| "annotate_types client do_append raw fields_opt ((node_type, node_list) # rest) node_d w =
     (if map_of annotator_clients node_type = None \<or> node_list = []
      then annotate_types client do_append raw fields_opt rest node_d w
      else
        (case map_err query_id node_list of
           Inl e \<Rightarrow> (Inl e, w)
         | Inr query_list \<Rightarrow>
             let node_id_d = dict_zip query_list node_list
             in (case query_biothings client node_type query_list fields_opt w of
                   (Inl e, w') \<Rightarrow> (Inl e, w')
                 | (Inr res_by_id, w') \<Rightarrow>
                     (case annotate_results do_append raw node_id_d res_by_id node_d of
                        Inl e \<Rightarrow> (Inl e, w')
                      | Inr node_d' \<Rightarrow>
                          annotate_types client do_append raw fields_opt rest node_d' w'))))"

definition annotate_trapi ::
  "client \<Rightarrow> json \<Rightarrow> bool \<Rightarrow> bool \<Rightarrow> string option \<Rightarrow> int option \<Rightarrow> world
     \<Rightarrow> (error + nodes) \<times> world"
where
  "annotate_trapi client trapi_input do_append raw fields_opt limit w =
     (case input_nodes trapi_input of
        Inl e \<Rightarrow> (Inl e, w)
      | Inr node_d0 \<Rightarrow>
          let node_d = truncate_nodes limit node_d0
          in (case group_loop [] (map fst node_d) w of
                (Inl e, w1) \<Rightarrow> (Inl e, w1)
              | (Inr node_list_by_type, w1) \<Rightarrow>
                  annotate_types client do_append raw fields_opt node_list_by_type node_d w1))"

section \<open>Notions used to state the properties\<close>

text \<open>
  The resolved entity type of a node id, as the grouping loop sees it: the type
  \<^verbatim>\<open>parse_curie\<close> returns when it is truthy, and \<open>None\<close> when the id is skipped or rejected.
\<close>

definition curie_type :: "string \<Rightarrow> string option" where
  "curie_type node_id =
     (case parse_curie node_id True False of
        Inr (TypeOnly (Some t)) \<Rightarrow> if t = [] then None else Some t
      | _ \<Rightarrow> None)"

text \<open>The query id sent to the lookup client for a node id that contains a colon.\<close>

definition lookup_id :: "string \<Rightarrow> string" where
  "lookup_id node_id = (case query_id node_id of Inr i \<Rightarrow> i | Inl e \<Rightarrow> node_id)"

text \<open>The test \<^verbatim>\<open>":" in curie\<close>.\<close>

definition has_colon :: "string \<Rightarrow> bool" where
  "has_colon s = (CHR '':'' \<in> set s)"

text \<open>
  The invariant of the grouping loop after the node ids \<open>seen\<close>: one entry per resolved
  type, holding the ids of that type in iteration order.
\<close>

definition grouped :: "string list \<Rightarrow> groups \<Rightarrow> bool" where
  "grouped seen G \<longleftrightarrow>
     distinct (map fst G)
     \<and> (\<forall>t nl. map_of G t = Some nl \<longrightarrow> nl = filter (\<lambda>n. curie_type n = Some t) seen \<and> nl \<noteq> [])
     \<and> (\<forall>n \<in> set seen. \<forall>t. curie_type n = Some t \<longrightarrow> map_of G t \<noteq> None)"

text \<open>
  What the inner loop does to a node that gets the records \<open>res\<close>: transform them unless
  \<open>raw\<close>, wrap them in the envelope, and append or replace.
\<close>

definition attach_records :: "bool \<Rightarrow> bool \<Rightarrow> annotation list \<Rightarrow> json \<Rightarrow> error + json" where
  "attach_records do_append raw res node =
     (case (if \<not> raw then map_err transform res else Inr res) of
        Inl e \<Rightarrow> Inl e
      | Inr res' \<Rightarrow> attach do_append (envelope res') node)"

text \<open>
  The result dict of the one lookup made for the type \<open>t\<close> with the node ids \<open>nl\<close>. It does
  not depend on the calls and warnings recorded before.
\<close>

definition lookup_result :: "client \<Rightarrow> string option \<Rightarrow> string \<Rightarrow> string list \<Rightarrow> error + by_query" where
  "lookup_result client fields_opt t nl =
     fst (query_biothings client t (map lookup_id nl) fields_opt \<lparr>lookups = [], warnings = []\<rparr>)"

text \<open>
  The records a node id \<open>n\<close> of the group \<open>nl\<close> receives, if any: the entry of the result
  dict under its query id, provided \<open>n\<close> is the last id of the group with that query id
  (the entry of \<^verbatim>\<open>node_id_d\<close> for a query id is the last node id zipped with it).
\<close>

definition group_records ::
  "client \<Rightarrow> string option \<Rightarrow> string \<Rightarrow> string list \<Rightarrow> string \<Rightarrow> annotation list option" where
  "group_records client fields_opt t nl n =
     (case lookup_result client fields_opt t nl of
        Inl e \<Rightarrow> None
      | Inr res \<Rightarrow>
          if n \<in> set nl \<and> last (filter (\<lambda>m. lookup_id m = lookup_id n) nl) = n
          then map_of res (JStr (lookup_id n)) else None)"

text \<open>
  A node before and after the call: unchanged when it receives no records, and the result
  of \<open>attach_records\<close> otherwise.
\<close>

definition node_updated ::
  "bool \<Rightarrow> bool \<Rightarrow> annotation list option \<Rightarrow> json option \<Rightarrow> json option \<Rightarrow> bool" where
  "node_updated do_append raw recs_opt before after =
     (case recs_opt of
        None \<Rightarrow> after = before
      | Some recs \<Rightarrow>
          (case before of
             None \<Rightarrow> False
           | Some v \<Rightarrow>
               (case attach_records do_append raw recs v of
                  Inl e \<Rightarrow> False
                | Inr v' \<Rightarrow> after = Some v')))"

text \<open>The records a node id receives in a call on the nodes \<open>node_d\<close>.\<close>

definition node_records :: "client \<Rightarrow> string option \<Rightarrow> nodes \<Rightarrow> string \<Rightarrow> annotation list option" where
  "node_records client fields_opt node_d n =
     (case curie_type n of
        None \<Rightarrow> None
      | Some t \<Rightarrow>
          group_records client fields_opt t
            (filter (\<lambda>m. curie_type m = Some t) (map fst node_d)) n)"

text \<open>The distinct resolved entity types of a node mapping.\<close>

definition node_types :: "nodes \<Rightarrow> string list" where
  "node_types node_d = remdups (List.map_filter curie_type (map fst node_d))"

text \<open>
  A well-formed node: a dict whose \<^verbatim>\<open>attributes\<close>, when present, are a list.
\<close>

definition node_ok :: "json \<Rightarrow> bool" where
  "node_ok v =
     (case v of
        JObj kvs \<Rightarrow>
          (case map_of kvs ''attributes'' of
             None \<Rightarrow> True
           | Some (JList attrs) \<Rightarrow> True
           | Some _ \<Rightarrow> False)
      | _ \<Rightarrow> False)"

text \<open>A dict node with no \<^verbatim>\<open>attributes\<close> key.\<close>

definition lacks_attributes :: "json \<Rightarrow> bool" where
  "lacks_attributes v = (case v of JObj kvs \<Rightarrow> map_of kvs ''attributes'' = None | _ \<Rightarrow> False)"

text \<open>
  A lookup that keeps the service contract: it returns, every key of its result dict is
  one of the query ids sent, and (unless \<open>raw\<close>) the transformer accepts every record.
  It need not hold an entry for every query id.
\<close>

definition group_ok :: "client \<Rightarrow> string option \<Rightarrow> bool \<Rightarrow> string \<Rightarrow> string list \<Rightarrow> bool" where
  "group_ok client fields_opt raw t nl =
     (case lookup_result client fields_opt t nl of
        Inl e \<Rightarrow> False
      | Inr res \<Rightarrow>
          (\<forall>kr \<in> set res.
             fst kr \<in> set (map (\<lambda>m. JStr (lookup_id m)) nl)
             \<and> (raw \<or> \<not> isl (map_err transform (snd kr)))))"

text \<open>The lookups of all the entity types of a node mapping keep the contract.\<close>

definition results_ok :: "client \<Rightarrow> string option \<Rightarrow> bool \<Rightarrow> nodes \<Rightarrow> bool" where
  "results_ok client fields_opt raw node_d =
     (\<forall>t \<in> set (node_types node_d).
        group_ok client fields_opt raw t
          (filter (\<lambda>m. curie_type m = Some t) (map fst node_d)))"

text \<open>
  A node id the grouping loop skips: it has a colon, and its prefix gives no entity type.
\<close>

definition skipped :: "string \<Rightarrow> bool" where
  "skipped n \<longleftrightarrow> has_colon n \<and> curie_type n = None"

text \<open>
  The annotation of a node itself does not fail: a node that receives records is in the
  mapping, and transforming the records and attaching the envelope to it both succeed.
  Nothing is asked of a node that receives no records.
\<close>

definition receives_ok :: "bool \<Rightarrow> bool \<Rightarrow> annotation list option \<Rightarrow> json option \<Rightarrow> bool" where
  "receives_ok do_append raw recs_opt before =
     (case recs_opt of
        None \<Rightarrow> True
      | Some recs \<Rightarrow>
          (case before of
             None \<Rightarrow> False
           | Some v \<Rightarrow> \<not> isl (attach_records do_append raw recs v)))"

text \<open>
  The lookup for a type returns, and every key of its result dict is one of the query ids
  sent. It need not hold an entry for every query id.
\<close>

definition keys_sent :: "client \<Rightarrow> string option \<Rightarrow> string \<Rightarrow> string list \<Rightarrow> bool" where
  "keys_sent client fields_opt t nl =
     (case lookup_result client fields_opt t nl of
        Inl e \<Rightarrow> False
      | Inr res \<Rightarrow> (\<forall>kr \<in> set res. fst kr \<in> set (map (\<lambda>m. JStr (lookup_id m)) nl)))"

text \<open>The same for the lookups of all the entity types of a node mapping.\<close>

definition lookup_keys_ok :: "client \<Rightarrow> string option \<Rightarrow> nodes \<Rightarrow> bool" where
  "lookup_keys_ok client fields_opt node_d =
     (\<forall>t \<in> set (node_types node_d).
        keys_sent client fields_opt t
          (filter (\<lambda>m. curie_type m = Some t) (map fst node_d)))"

section \<open>Example inputs\<close>

text \<open>A world with nothing recorded yet.\<close>

definition fresh :: world where
  "fresh = \<lparr>lookups = [], warnings = []\<rparr>"

text \<open>A lookup client that returns one hit for every id it is asked for.\<close>

definition example_client :: client where
  "example_client c =
     Inr (map (\<lambda>q. [(''query'', JStr q), (''_score'', JInt 1), (''symbol'', JStr ''S'')])
            (call_ids c))"

text \<open>A lookup client that returns a hit for the first id it is asked for, and no other.\<close>

definition first_id_client :: client where
  "first_id_client c =
     Inr (map (\<lambda>q. [(''query'', JStr q), (''_score'', JInt 1), (''symbol'', JStr ''S'')])
            (take 1 (call_ids c)))"

text \<open>A lookup client that finds nothing.\<close>

definition no_hits :: client where
  "no_hits c = Inr []"

text \<open>A TRAPI message around a node mapping.\<close>

definition trapi_message :: "nodes \<Rightarrow> json" where
  "trapi_message node_d =
     JObj [(''message'', JObj [(''knowledge_graph'', JObj [(''nodes'', JObj node_d)])])]"

section \<open>Properties\<close>

subsection \<open>The curie parser\<close>

lemma split_colon_first:
  "CHR '':'' \<notin> set p \<Longrightarrow> split_colon (p @ CHR '':'' # l) = (p, l)"
  by (induction p) (auto simp add: split_colon_def)

lemma colon_split:
  assumes "CHR '':'' \<in> set curie"
  obtains p l where "curie = p @ CHR '':'' # l" and "CHR '':'' \<notin> set p"
  using assms by (meson split_list_first)

text \<open>Every entry of the table has a non-empty type and no converter.\<close>

lemma table_rule:
  assumes "map_of BIOLINK_PREFIX_to_BioThings p = Some r"
  shows "rule_converter r = None \<and> (\<exists>s. rule_type r = Some s \<and> s \<noteq> [])
         \<and> (rule_keep_prefix r = None \<or> rule_keep_prefix r = Some True)"
proof -
  from assms have "(p, r) \<in> set BIOLINK_PREFIX_to_BioThings" by (rule map_of_SomeD)
  then show ?thesis
    unfolding BIOLINK_PREFIX_to_BioThings_def by auto
qed

subsection \<open>The loops of annotate_trapi\<close>

lemma parse_type_no_colon:
  "\<not> has_colon n \<Longrightarrow> parse_curie n rt ri = Inl (InvalidCurieError (''Invalid input curie id: '' @ n))"
  by (simp add: parse_curie_def has_colon_def)

lemma parse_type_colon:
  "has_colon n \<Longrightarrow> \<exists>t. parse_curie n True False = Inr (TypeOnly t)"
  by (simp add: parse_curie_def has_colon_def split: prod.splits)

lemma query_id_colon:
  "has_colon n \<Longrightarrow> query_id n = Inr (lookup_id n)"
  by (simp add: query_id_def lookup_id_def parse_curie_def has_colon_def Let_def split: prod.splits)

lemma curie_type_colon: "curie_type n = Some t \<Longrightarrow> has_colon n"
  by (auto simp: curie_type_def has_colon_def parse_curie_def split: sum.splits parsed.splits option.splits if_splits)

lemma curie_type_client:
  assumes "curie_type n = Some t"
  shows "t \<in> {''gene'', ''chem'', ''disease''}"
proof -
  have hc: "CHR '':'' \<in> set n" using curie_type_colon[OF assms] by (simp add: has_colon_def)
  obtain p l where sp: "split_colon n = (p, l)" by (cases "split_colon n")
  from assms hc sp have "\<exists>r. map_of BIOLINK_PREFIX_to_BioThings p = Some r \<and> rule_type r = Some t"
    by (auto simp: curie_type_def parse_curie_def split: option.splits if_splits)
  then obtain r where "(p, r) \<in> set BIOLINK_PREFIX_to_BioThings" "rule_type r = Some t"
    by (auto dest: map_of_SomeD)
  then show ?thesis unfolding BIOLINK_PREFIX_to_BioThings_def by auto
qed

lemma clients_known: "t \<in> {''gene'', ''chem'', ''disease''} \<Longrightarrow> map_of annotator_clients t \<noteq> None"
  by (auto simp: annotator_clients_def)

text \<open>One step of the grouping loop, by the resolved type.\<close>

lemma group_loop_step:
  "group_loop acc (n # rest) w =
     (if \<not> has_colon n then (Inl (InvalidCurieError (''Invalid input curie id: '' @ n)), w)
      else case curie_type n of
        None \<Rightarrow> group_loop acc rest (w\<lparr>warnings := warnings w @ [skip_warning n]\<rparr>)
      | Some t \<Rightarrow> (case map_of acc t of
                    None \<Rightarrow> group_loop (AList.update t [n] acc) rest w
                  | Some ns \<Rightarrow> group_loop (AList.update t (ns @ [n]) acc) rest w))"
proof (cases "has_colon n")
  case False
  then show ?thesis by (simp add: parse_type_no_colon)
next
  case True
  then obtain t where "parse_curie n True False = Inr (TypeOnly t)"
    using parse_type_colon by blast
  then show ?thesis using True
    by (simp add: curie_type_def split: option.splits)
qed

declare group_loop.simps(2) [simp del]

lemma grouped_skip: "grouped seen G \<Longrightarrow> curie_type n = None \<Longrightarrow> grouped (seen @ [n]) G"
  by (auto simp: grouped_def)

lemma grouped_new:
  assumes "grouped seen G" "curie_type n = Some t" "map_of G t = None"
  shows "grouped (seen @ [n]) (AList.update t [n] G)"
proof -
  have "\<forall>m \<in> set seen. curie_type m \<noteq> Some t"
    using assms(1,3) unfolding grouped_def by fastforce
  then have empty: "filter (\<lambda>m. curie_type m = Some t) seen = []"
    by (simp add: filter_empty_conv)
  show ?thesis
    using assms empty
    by (auto simp: grouped_def distinct_update update_conv')
qed

lemma grouped_old:
  assumes "grouped seen G" "curie_type n = Some t" "map_of G t = Some ns"
  shows "grouped (seen @ [n]) (AList.update t (ns @ [n]) G)"
  using assms by (auto simp: grouped_def distinct_update update_conv')

lemma group_loop_grouped:
  "group_loop acc rest w = (Inr G, w') \<Longrightarrow> grouped seen acc \<Longrightarrow>
     grouped (seen @ rest) G \<and> lookups w' = lookups w
       \<and> warnings w' = warnings w @ map skip_warning (filter (\<lambda>n. curie_type n = None) rest)
       \<and> (\<forall>n \<in> set rest. has_colon n)"
proof (induction rest arbitrary: acc w seen)
  case Nil
  then show ?case by simp
next
  case (Cons n rest)
  from Cons.prems(1) have hc: "has_colon n"
    by (auto simp: group_loop_step split: if_splits)
  show ?case
  proof (cases "curie_type n")
    case None
    with Cons.prems hc have
      "group_loop acc rest (w\<lparr>warnings := warnings w @ [skip_warning n]\<rparr>) = (Inr G, w')"
      by (simp add: group_loop_step)
    from Cons.IH[OF this grouped_skip[OF Cons.prems(2) None]] None hc
    show ?thesis by simp
  next
    case (Some t)
    show ?thesis
    proof (cases "map_of acc t")
      case None
      with Cons.prems hc Some have "group_loop (AList.update t [n] acc) rest w = (Inr G, w')"
        by (simp add: group_loop_step)
      from Cons.IH[OF this grouped_new[OF Cons.prems(2) Some None]] Some hc
      show ?thesis by simp
    next
      case (Some ns)
      with Cons.prems hc \<open>curie_type n = Some t\<close>
      have "group_loop (AList.update t (ns @ [n]) acc) rest w = (Inr G, w')"
        by (simp add: group_loop_step)
      from Cons.IH[OF this grouped_old[OF Cons.prems(2) \<open>curie_type n = Some t\<close> Some]]
        \<open>curie_type n = Some t\<close> hc
      show ?thesis by simp
    qed
  qed
qed

lemma grouped_Nil: "grouped [] []"
  by (simp add: grouped_def)

lemma group_loop_colons:
  "\<forall>n \<in> set rest. has_colon n \<Longrightarrow> \<exists>G w'. group_loop acc rest w = (Inr G, w')"
proof (induction rest arbitrary: acc w)
  case Nil
  then show ?case by simp
next
  case (Cons n rest)
  then show ?case
    by (simp add: group_loop_step split: option.splits)
qed

lemma group_loop_lookups: "lookups (snd (group_loop acc rest w)) = lookups w"
proof (induction rest arbitrary: acc w)
  case Nil
  then show ?case by simp
next
  case (Cons n rest)
  then show ?case
    by (simp add: group_loop_step split: option.splits)
qed

lemma map_of_fold_update:
  "map_of (fold (\<lambda>kv d. AList.update (fst kv) (snd kv) d) ps acc) = map_of acc ++ map_of (rev ps)"
proof (induction ps arbitrary: acc)
  case Nil
  then show ?case by simp
next
  case (Cons p ps)
  show ?case
    by (simp add: Cons.IH update_conv' map_add_upd_left fun_eq_iff map_add_def split: option.splits)
qed

lemma dict_zip_last:
  "map_of (dict_zip (map f nl) nl) q =
     (if filter (\<lambda>m. f m = q) nl = [] then None else Some (last (filter (\<lambda>m. f m = q) nl)))"
proof -
  have "map_of (rev (zip (map f nl) nl)) q =
     (if filter (\<lambda>m. f m = q) nl = [] then None else Some (last (filter (\<lambda>m. f m = q) nl)))"
    by (induction nl rule: rev_induct) auto
  then show ?thesis by (simp add: dict_zip_def map_of_fold_update)
qed

lemma dict_zip_SomeD:
  assumes "map_of (dict_zip (map f nl) nl) q = Some n"
  shows "n \<in> set nl \<and> f n = q"
proof -
  let ?ms = "filter (\<lambda>m. f m = q) nl"
  from assms have ne: "?ms \<noteq> []" and l: "last ?ms = n"
    by (auto simp: dict_zip_last split: if_splits)
  from ne have "last ?ms \<in> set ?ms" by (rule last_in_set)
  with l show ?thesis by auto
qed

lemma dict_add_keys:
  "map (\<lambda>e. key_norm (fst e)) (dict_add k d out) =
     (if key_norm k \<in> (\<lambda>e. key_norm (fst e)) ` set out then map (\<lambda>e. key_norm (fst e)) out
      else map (\<lambda>e. key_norm (fst e)) out @ [key_norm k])"
proof (induction out)
  case Nil
  then show ?case by simp
next
  case (Cons e out)
  obtain k' ds where e: "e = (k', ds)" by (cases e)
  show ?case
  proof (cases "key_norm k' = key_norm k")
    case True
    then show ?thesis using e by simp
  next
    case False
    then have "key_norm k \<noteq> key_norm k'" by simp
    then show ?thesis using e False Cons.IH by simp
  qed
qed

lemma dict_add_distinct:
  "distinct (map (\<lambda>e. key_norm (fst e)) out)
     \<Longrightarrow> distinct (map (\<lambda>e. key_norm (fst e)) (dict_add k d out))"
  by (simp add: dict_add_keys)

lemma distinct_norm_keys:
  "distinct (map (\<lambda>e. key_norm (fst e)) r) \<Longrightarrow> distinct (map fst r)"
proof -
  assume "distinct (map (\<lambda>e. key_norm (fst e)) r)"
  then have "distinct (map (key_norm \<circ> fst) r)" by (simp add: comp_def)
  then have "distinct (map key_norm (map fst r))" by simp
  then show ?thesis by (rule distinct_map[THEN iffD1, THEN conjunct1])
qed

lemma list2dict_loop_distinct:
  "list2dict_loop out li key = Inr r \<Longrightarrow> distinct (map (\<lambda>e. key_norm (fst e)) out)
     \<Longrightarrow> distinct (map (\<lambda>e. key_norm (fst e)) r)"
proof (induction li arbitrary: out)
  case Nil
  then show ?case by simp
next
  case (Cons d li)
  from Cons.prems(1) obtain k where k: "map_of d key = Some k" "hashable k"
      "list2dict_loop (dict_add k d out) li key = Inr r"
    by (auto split: option.splits if_splits)
  have "distinct (map (\<lambda>e. key_norm (fst e)) (dict_add k d out))"
    using Cons.prems(2) by (rule dict_add_distinct)
  from Cons.IH[OF k(3) this] show ?case .
qed

lemma list2dict_distinct: "list2dict li key = Inr r \<Longrightarrow> distinct (map fst r)"
  unfolding list2dict_def
  by (rule distinct_norm_keys, erule list2dict_loop_distinct) simp

lemma query_biothings_world:
  "query_biothings client t ql f w = (r, w') \<Longrightarrow>
     r = fst (query_biothings client t ql f w0) \<and> warnings w' = warnings w
     \<and> (\<exists>cs. lookups w' = lookups w @ cs \<and> length cs \<le> 1)"
  by (auto simp: query_biothings_def Let_def split: option.splits sum.splits)

lemma annotate_node_Inr:
  "annotate_node a raw d k recs nd = Inr nd' \<longleftrightarrow>
     (\<exists>orig v v'. orig_node d k = Some orig \<and> map_of nd orig = Some v
        \<and> attach_records a raw recs v = Inr v' \<and> nd' = AList.update orig v' nd)"
  by (auto simp: annotate_node_def attach_records_def split: option.splits sum.splits)

lemma update_keys_same: "k \<in> fst ` set al \<Longrightarrow> map fst (AList.update k v al) = map fst al"
  by (induction al) auto

lemma annotate_results_Inr:
  assumes "annotate_results a raw d res nd = Inr out"
    and "distinct (map fst res)"
    and "\<forall>k k' n. orig_node d k = Some n \<longrightarrow> orig_node d k' = Some n \<longrightarrow> k = k'"
  shows "map fst out = map fst nd
    \<and> (\<forall>n. (\<forall>k recs. (k, recs) \<in> set res \<longrightarrow> orig_node d k \<noteq> Some n) \<longrightarrow> map_of out n = map_of nd n)
    \<and> (\<forall>k recs n. (k, recs) \<in> set res \<longrightarrow> orig_node d k = Some n \<longrightarrow>
          (\<exists>v v'. map_of nd n = Some v \<and> attach_records a raw recs v = Inr v'
             \<and> map_of out n = Some v'))"
  using assms(1,2)
proof (induction res arbitrary: nd)
  case Nil
  then show ?case by simp
next
  case (Cons e res)
  obtain k recs where e: "e = (k, recs)" by (cases e)
  from Cons.prems(1) e obtain nd1 where
    nd1: "annotate_node a raw d k recs nd = Inr nd1" and
    rest: "annotate_results a raw d res nd1 = Inr out"
    by (auto split: sum.splits)
  from nd1 obtain orig v v' where o: "orig_node d k = Some orig" "map_of nd orig = Some v"
    "attach_records a raw recs v = Inr v'" "nd1 = AList.update orig v' nd"
    by (auto simp: annotate_node_Inr)
  from Cons.prems(2) e have dres: "distinct (map fst res)" and knot: "k \<notin> fst ` set res" by auto
  note IH = Cons.IH[OF rest dres]
  from IH have IH1: "map fst out = map fst nd1" by blast
  from IH have IH2: "\<And>n. (\<forall>k recs. (k, recs) \<in> set res \<longrightarrow> orig_node d k \<noteq> Some n)
      \<Longrightarrow> map_of out n = map_of nd1 n" by blast
  from IH have IH3: "\<And>k recs n. (k, recs) \<in> set res \<Longrightarrow> orig_node d k = Some n \<Longrightarrow>
          (\<exists>v v'. map_of nd1 n = Some v \<and> attach_records a raw recs v = Inr v'
             \<and> map_of out n = Some v')" by blast
  have orig_in: "orig \<in> fst ` set nd" using o(2) by (metis map_of_eq_None_iff option.distinct(1))
  have keys: "map fst out = map fst nd"
    using IH1 o(4) orig_in by (simp add: update_keys_same)
  have nd1_other: "\<And>n. n \<noteq> orig \<Longrightarrow> map_of nd1 n = map_of nd n"
    using o(4) by (simp add: update_conv')
  have nd1_orig: "map_of nd1 orig = Some v'" using o(4) by (simp add: update_conv')
  have untouched_rest: "\<forall>k' recs'. (k', recs') \<in> set res \<longrightarrow> orig_node d k' \<noteq> Some orig"
  proof (intro allI impI notI)
    fix k' recs' assume m: "(k', recs') \<in> set res" and t: "orig_node d k' = Some orig"
    from assms(3) o(1) t have "k = k'" by blast
    with m knot show False by force
  qed
  have part1: "\<forall>n. (\<forall>k' recs'. (k', recs') \<in> set (e # res) \<longrightarrow> orig_node d k' \<noteq> Some n)
           \<longrightarrow> map_of out n = map_of nd n"
  proof (intro allI impI)
    fix n assume h: "\<forall>k' recs'. (k', recs') \<in> set (e # res) \<longrightarrow> orig_node d k' \<noteq> Some n"
    then have "n \<noteq> orig" using o(1) e by auto
    moreover from h have "\<forall>k recs. (k, recs) \<in> set res \<longrightarrow> orig_node d k \<noteq> Some n" by auto
    then have "map_of out n = map_of nd1 n" by (rule IH2)
    ultimately show "map_of out n = map_of nd n" using nd1_other by simp
  qed
  have part2: "\<forall>k' recs' n. (k', recs') \<in> set (e # res) \<longrightarrow> orig_node d k' = Some n \<longrightarrow>
          (\<exists>v v'. map_of nd n = Some v \<and> attach_records a raw recs' v = Inr v'
             \<and> map_of out n = Some v')"
  proof (intro allI impI)
    fix k' recs' n
    assume m: "(k', recs') \<in> set (e # res)" and t: "orig_node d k' = Some n"
    show "\<exists>v v'. map_of nd n = Some v \<and> attach_records a raw recs' v = Inr v'
             \<and> map_of out n = Some v'"
    proof (cases "(k', recs') = e")
      case True
      then have "k' = k" "recs' = recs" using e by auto
      with t o(1) have "n = orig" by simp
      have "map_of out orig = map_of nd1 orig" using untouched_rest by (rule IH2)
      with nd1_orig o \<open>n = orig\<close> \<open>recs' = recs\<close> show ?thesis by auto
    next
      case False
      with m have m': "(k', recs') \<in> set res" by auto
      have "n \<noteq> orig" using untouched_rest m' t by blast
      from IH3[OF m' t] obtain v1 v1' where "map_of nd1 n = Some v1"
        "attach_records a raw recs' v1 = Inr v1'" "map_of out n = Some v1'" by blast
      with nd1_other[OF \<open>n \<noteq> orig\<close>] show ?thesis by (intro exI[of _ v1] exI[of _ v1']) simp
    qed
  qed
  from keys part1 part2 show ?case by blast
qed

lemma map_err_all:
  "\<forall>x \<in> set xs. f x = Inr (g x) \<Longrightarrow> map_err f xs = Inr (map g xs)"
  by (induction xs) auto

lemma query_biothings_result:
  "query_biothings client t ql f w = (r, w') \<Longrightarrow> map_of annotator_clients t \<noteq> None \<Longrightarrow>
     r = fst (query_biothings client t ql f w0) \<and> warnings w' = warnings w
     \<and> (\<exists>c. lookups w' = lookups w @ [c] \<and> call_type c = t \<and> call_ids c = ql)"
  by (auto simp: query_biothings_def Let_def split: option.splits sum.splits)

lemma orig_node_dict_zip:
  assumes "orig_node (dict_zip (map lookup_id nl) nl) k = Some n"
  shows "k = JStr (lookup_id n) \<and> n \<in> set nl
         \<and> last (filter (\<lambda>m. lookup_id m = lookup_id n) nl) = n"
proof -
  from assms obtain q where k: "k = JStr q"
    and m: "map_of (dict_zip (map lookup_id nl) nl) q = Some n"
    by (auto simp: orig_node_def split: json.splits)
  from dict_zip_SomeD[OF m] have n: "n \<in> set nl" "lookup_id n = q" by auto
  from m n show ?thesis using k by (auto simp: dict_zip_last split: if_splits)
qed

lemma group_step:
  assumes cl: "map_of annotator_clients t \<noteq> None" and ne: "nl \<noteq> []"
    and col: "\<forall>n \<in> set nl. has_colon n"
    and run: "annotate_types client a raw f ((t, nl) # rest) nd w = (Inr out, w')"
  obtains nd1 w1 where
    "annotate_types client a raw f rest nd1 w1 = (Inr out, w')"
    "map fst nd1 = map fst nd"
    "\<forall>n. n \<notin> set nl \<longrightarrow> map_of nd1 n = map_of nd n"
    "\<forall>n \<in> set nl. node_updated a raw (group_records client f t nl n) (map_of nd n) (map_of nd1 n)"
    "warnings w1 = warnings w"
    "\<exists>c. lookups w1 = lookups w @ [c] \<and> call_type c = t \<and> call_ids c = map lookup_id nl"
    "\<exists>res. lookup_result client f t nl = Inr res"
proof -
  let ?ql = "map lookup_id nl"
  let ?d = "dict_zip ?ql nl"
  have ql: "map_err query_id nl = Inr ?ql"
    using col by (intro map_err_all) (simp add: query_id_colon)
  obtain r w1 where q: "query_biothings client t ?ql f w = (r, w1)"
    by (cases "query_biothings client t ?ql f w")
  from run cl ne ql q obtain res where r: "r = Inr res"
    by (cases r) (auto simp: Let_def)
  from run cl ne ql q r obtain nd1 where
    nd1: "annotate_results a raw ?d res nd = Inr nd1" and
    rest: "annotate_types client a raw f rest nd1 w1 = (Inr out, w')"
    by (cases "annotate_results a raw ?d res nd") (auto simp: Let_def)
  from query_biothings_result[OF q cl, of "\<lparr>lookups = [], warnings = []\<rparr>"] r
  have lr: "lookup_result client f t nl = Inr res" and ww: "warnings w1 = warnings w"
    and lk: "\<exists>c. lookups w1 = lookups w @ [c] \<and> call_type c = t \<and> call_ids c = ?ql"
    by (auto simp: lookup_result_def)
  have dres: "distinct (map fst res)"
    using lr cl by (auto simp: lookup_result_def query_biothings_def Let_def
        split: option.splits sum.splits dest: list2dict_distinct)
  have inj: "\<forall>k k' n. orig_node ?d k = Some n \<longrightarrow> orig_node ?d k' = Some n \<longrightarrow> k = k'"
    using orig_node_dict_zip by blast
  note inner = annotate_results_Inr[OF nd1 dres inj]
  from inner have keys: "map fst nd1 = map fst nd" by blast
  from inner have untouched: "\<And>n. (\<forall>k recs. (k, recs) \<in> set res \<longrightarrow> orig_node ?d k \<noteq> Some n)
      \<Longrightarrow> map_of nd1 n = map_of nd n" by blast
  from inner have touched: "\<And>k recs n. (k, recs) \<in> set res \<Longrightarrow> orig_node ?d k = Some n \<Longrightarrow>
      (\<exists>v v'. map_of nd n = Some v \<and> attach_records a raw recs v = Inr v'
             \<and> map_of nd1 n = Some v')" by blast
  have out_group: "\<forall>n. n \<notin> set nl \<longrightarrow> map_of nd1 n = map_of nd n"
  proof (intro allI impI)
    fix n assume "n \<notin> set nl"
    then have "\<forall>k recs. (k, recs) \<in> set res \<longrightarrow> orig_node ?d k \<noteq> Some n"
      using orig_node_dict_zip by blast
    then show "map_of nd1 n = map_of nd n" by (rule untouched)
  qed
  have in_group: "\<forall>n \<in> set nl. node_updated a raw (group_records client f t nl n) (map_of nd n) (map_of nd1 n)"
  proof
    fix n assume n: "n \<in> set nl"
    show "node_updated a raw (group_records client f t nl n) (map_of nd n) (map_of nd1 n)"
    proof (cases "group_records client f t nl n")
      case None
      have "\<forall>k recs. (k, recs) \<in> set res \<longrightarrow> orig_node ?d k \<noteq> Some n"
      proof (intro allI impI notI)
        fix k recs assume m: "(k, recs) \<in> set res" and o: "orig_node ?d k = Some n"
        from orig_node_dict_zip[OF o] have k: "k = JStr (lookup_id n)"
          and l: "last (filter (\<lambda>m. lookup_id m = lookup_id n) nl) = n" by auto
        from m dres k have "map_of res (JStr (lookup_id n)) = Some recs" by simp
        with l lr n have "group_records client f t nl n = Some recs"
          by (simp add: group_records_def)
        with None show False by simp
      qed
      then have "map_of nd1 n = map_of nd n" by (rule untouched)
      with None show ?thesis by (simp add: node_updated_def)
    next
      case (Some recs)
      with lr have l: "last (filter (\<lambda>m. lookup_id m = lookup_id n) nl) = n"
        and m: "map_of res (JStr (lookup_id n)) = Some recs"
        by (auto simp: group_records_def split: if_splits)
      from m have mem: "(JStr (lookup_id n), recs) \<in> set res" by (rule map_of_SomeD)
      have "filter (\<lambda>m. lookup_id m = lookup_id n) nl \<noteq> []"
        using n by (auto simp: filter_empty_conv)
      with l have o: "orig_node ?d (JStr (lookup_id n)) = Some n"
        by (simp add: orig_node_def dict_zip_last)
      from touched[OF mem o] Some show ?thesis by (auto simp: node_updated_def)
    qed
  qed
  from lr have "\<exists>res. lookup_result client f t nl = Inr res" by blast
  with rest keys out_group in_group ww lk show ?thesis by (rule that)
qed

lemma annotate_types_Inr:
  assumes "annotate_types client a raw f gs nd w = (Inr out, w')"
    and "distinct (map fst gs)"
    and "\<forall>t nl. (t, nl) \<in> set gs \<longrightarrow> nl \<noteq> [] \<and> (\<forall>n \<in> set nl. curie_type n = Some t)"
  shows "map fst out = map fst nd
    \<and> (\<forall>n. (\<forall>t nl. (t, nl) \<in> set gs \<longrightarrow> n \<notin> set nl) \<longrightarrow> map_of out n = map_of nd n)
    \<and> (\<forall>t nl n. (t, nl) \<in> set gs \<longrightarrow> n \<in> set nl \<longrightarrow>
          node_updated a raw (group_records client f t nl n) (map_of nd n) (map_of out n))
    \<and> warnings w' = warnings w
    \<and> (\<exists>cs. lookups w' = lookups w @ cs
          \<and> map (\<lambda>c. (call_type c, call_ids c)) cs = map (\<lambda>g. (fst g, map lookup_id (snd g))) gs)
    \<and> (\<forall>t nl. (t, nl) \<in> set gs \<longrightarrow> (\<exists>res. lookup_result client f t nl = Inr res))"
  using assms
proof (induction gs arbitrary: nd w)
  case Nil
  then show ?case by simp
next
  case (Cons g gs)
  obtain t nl where g: "g = (t, nl)" by (cases g)
  from Cons.prems(3) g have ne: "nl \<noteq> []" and ty: "\<forall>n \<in> set nl. curie_type n = Some t"
    by auto
  from ty ne have cl: "map_of annotator_clients t \<noteq> None"
    by (metis clients_known curie_type_client last_in_set)
  from ty have col: "\<forall>n \<in> set nl. has_colon n" by (auto dest: curie_type_colon)
  from Cons.prems(1) g have run: "annotate_types client a raw f ((t, nl) # gs) nd w = (Inr out, w')"
    by simp
  from group_step[OF cl ne col run] obtain nd1 w1 where
    rest: "annotate_types client a raw f gs nd1 w1 = (Inr out, w')" and
    keys1: "map fst nd1 = map fst nd" and
    out1: "\<forall>n. n \<notin> set nl \<longrightarrow> map_of nd1 n = map_of nd n" and
    in1: "\<forall>n \<in> set nl. node_updated a raw (group_records client f t nl n) (map_of nd n) (map_of nd1 n)" and
    w1: "warnings w1 = warnings w" and
    l1: "\<exists>c. lookups w1 = lookups w @ [c] \<and> call_type c = t \<and> call_ids c = map lookup_id nl" and
    lr1: "\<exists>res. lookup_result client f t nl = Inr res"
    by blast
  from Cons.prems(2) g have dgs: "distinct (map fst gs)" and tnot: "t \<notin> fst ` set gs" by auto
  from Cons.prems(3) have tys: "\<forall>t nl. (t, nl) \<in> set gs \<longrightarrow> nl \<noteq> [] \<and> (\<forall>n \<in> set nl. curie_type n = Some t)"
    by auto
  note IH = Cons.IH[OF rest dgs tys]
  from IH have IHk: "map fst out = map fst nd1" by blast
  from IH have IHu: "\<And>n. (\<forall>t nl. (t, nl) \<in> set gs \<longrightarrow> n \<notin> set nl) \<Longrightarrow> map_of out n = map_of nd1 n"
    by blast
  from IH have IHt: "\<And>t nl n. (t, nl) \<in> set gs \<Longrightarrow> n \<in> set nl \<Longrightarrow>
          node_updated a raw (group_records client f t nl n) (map_of nd1 n) (map_of out n)"
    by blast
  from IH have IHw: "warnings w' = warnings w1" by blast
  from IH have IHr: "\<forall>t nl. (t, nl) \<in> set gs \<longrightarrow> (\<exists>res. lookup_result client f t nl = Inr res)"
    by blast
  from IH obtain cs where cs: "lookups w' = lookups w1 @ cs"
    "map (\<lambda>c. (call_type c, call_ids c)) cs = map (\<lambda>g. (fst g, map lookup_id (snd g))) gs"
    by blast
  have head_not_later: "\<And>n t' nl'. n \<in> set nl \<Longrightarrow> (t', nl') \<in> set gs \<Longrightarrow> n \<notin> set nl'"
  proof
    fix n t' nl' assume n: "n \<in> set nl" and m: "(t', nl') \<in> set gs" and n': "n \<in> set nl'"
    from ty n have "curie_type n = Some t" by simp
    moreover from tys m n' have "curie_type n = Some t'" by blast
    ultimately have "t = t'" by simp
    with m tnot show False by force
  qed
  have p1: "map fst out = map fst nd" using IHk keys1 by simp
  have p2: "\<forall>n. (\<forall>t' nl'. (t', nl') \<in> set (g # gs) \<longrightarrow> n \<notin> set nl') \<longrightarrow> map_of out n = map_of nd n"
  proof (intro allI impI)
    fix n assume h: "\<forall>t' nl'. (t', nl') \<in> set (g # gs) \<longrightarrow> n \<notin> set nl'"
    then have "n \<notin> set nl" using g by auto
    moreover from h have "\<forall>t' nl'. (t', nl') \<in> set gs \<longrightarrow> n \<notin> set nl'" by auto
    then have "map_of out n = map_of nd1 n" by (rule IHu)
    ultimately show "map_of out n = map_of nd n" using out1 by simp
  qed
  have p3: "\<forall>t' nl' n. (t', nl') \<in> set (g # gs) \<longrightarrow> n \<in> set nl' \<longrightarrow>
          node_updated a raw (group_records client f t' nl' n) (map_of nd n) (map_of out n)"
  proof (intro allI impI)
    fix t' nl' n assume m: "(t', nl') \<in> set (g # gs)" and n: "n \<in> set nl'"
    show "node_updated a raw (group_records client f t' nl' n) (map_of nd n) (map_of out n)"
    proof (cases "(t', nl') = g")
      case True
      then have e: "t' = t" "nl' = nl" using g by auto
      have "\<forall>t'' nl''. (t'', nl'') \<in> set gs \<longrightarrow> n \<notin> set nl''"
        using head_not_later n e by blast
      then have "map_of out n = map_of nd1 n" by (rule IHu)
      with in1 n e show ?thesis by simp
    next
      case False
      with m have m': "(t', nl') \<in> set gs" by auto
      have "n \<notin> set nl" using head_not_later m' n by blast
      then have "map_of nd1 n = map_of nd n" using out1 by simp
      with IHt[OF m' n] show ?thesis by simp
    qed
  qed
  have p4: "warnings w' = warnings w" using IHw w1 by simp
  from l1 obtain c where c: "lookups w1 = lookups w @ [c]" "call_type c = t"
    "call_ids c = map lookup_id nl" by blast
  have p5: "\<exists>cs'. lookups w' = lookups w @ cs'
          \<and> map (\<lambda>c. (call_type c, call_ids c)) cs' = map (\<lambda>g. (fst g, map lookup_id (snd g))) (g # gs)"
    using cs c g by (intro exI[of _ "c # cs"]) simp
  have p6: "\<forall>t' nl'. (t', nl') \<in> set (g # gs) \<longrightarrow> (\<exists>res. lookup_result client f t' nl' = Inr res)"
    using IHr lr1 g by auto
  from p1 p2 p3 p4 p5 p6 show ?case by blast
qed

lemma update_new_key: "k \<notin> fst ` set al \<Longrightarrow> AList.update k v al = al @ [(k, v)]"
  by (induction al) auto

lemma limit_loop_take:
  "distinct (map fst (acc @ nd)) \<Longrightarrow> limit_loop l i acc nd = acc @ take (nat (l - i)) nd"
proof (induction nd arbitrary: i acc)
  case Nil
  then show ?case by simp
next
  case (Cons e nd)
  obtain k v where e: "e = (k, v)" by (cases e)
  show ?case
  proof (cases "i + 1 > l")
    case True
    then show ?thesis using e by simp
  next
    case False
    from Cons.prems e have knew: "k \<notin> fst ` set acc" by auto
    from Cons.prems e have d: "distinct (map fst ((acc @ [(k, v)]) @ nd))" by auto
    have "limit_loop l i acc (e # nd) = limit_loop l (i + 1) (acc @ [(k, v)]) nd"
      using False e knew by (simp add: update_new_key)
    also have "\<dots> = (acc @ [(k, v)]) @ take (nat (l - (i + 1))) nd"
      by (rule Cons.IH[OF d])
    also have "\<dots> = acc @ take (nat (l - i)) (e # nd)"
    proof -
      from False have "nat (l - i) = Suc (nat (l - (i + 1)))" by simp
      then show ?thesis using e by simp
    qed
    finally show ?thesis .
  qed
qed

lemma truncate_nodes_take:
  "distinct (map fst nd) \<Longrightarrow>
     truncate_nodes limit nd =
       (case limit of None \<Rightarrow> nd | Some l \<Rightarrow> if l = 0 then nd else take (nat l) nd)"
  by (simp add: truncate_nodes_def limit_loop_take split: option.splits)

lemma truncate_nodes_distinct:
  "distinct (map fst nd) \<Longrightarrow> distinct (map fst (truncate_nodes limit nd))"
  by (auto simp: truncate_nodes_take take_map[symmetric] distinct_take split: option.splits)

lemma grouped_distinct: "grouped keys G \<Longrightarrow> distinct (map fst G)"
  by (simp add: grouped_def)

lemma grouped_list:
  assumes "grouped keys G" "(t, nl) \<in> set G"
  shows "nl = filter (\<lambda>n. curie_type n = Some t) keys" and "nl \<noteq> []"
proof -
  from assms have "map_of G t = Some nl" by (simp add: grouped_def)
  with assms(1) show "nl = filter (\<lambda>n. curie_type n = Some t) keys" and "nl \<noteq> []"
    unfolding grouped_def by blast+
qed

lemma grouped_member:
  assumes "grouped keys G" "(t, nl) \<in> set G" "n \<in> set nl"
  shows "curie_type n = Some t" and "n \<in> set keys"
proof -
  have "n \<in> set (filter (\<lambda>n. curie_type n = Some t) keys)"
    using assms(3) grouped_list(1)[OF assms(1,2)] by simp
  then show "curie_type n = Some t" and "n \<in> set keys" by simp_all
qed

lemma grouped_has:
  assumes "grouped keys G" "n \<in> set keys" "curie_type n = Some t"
  shows "(t, filter (\<lambda>n. curie_type n = Some t) keys) \<in> set G"
proof -
  from assms obtain nl where m: "map_of G t = Some nl" unfolding grouped_def by blast
  then have "(t, nl) \<in> set G" by (rule map_of_SomeD)
  with grouped_list(1)[OF assms(1) this] show ?thesis by simp
qed

lemma annotate_trapi_Inr:
  assumes inp: "input_nodes trapi_input = Inr nodes0"
    and dist: "distinct (map fst nodes0)"
    and run: "annotate_trapi client trapi_input a raw f limit w = (Inr out, w')"
  shows "map fst out = map fst (truncate_nodes limit nodes0)"
    and "\<forall>n. node_updated a raw (node_records client f (truncate_nodes limit nodes0) n)
              (map_of (truncate_nodes limit nodes0) n) (map_of out n)"
    and "warnings w' = warnings w @ map skip_warning
           (filter (\<lambda>n. curie_type n = None) (map fst (truncate_nodes limit nodes0)))"
    and "\<exists>cs. lookups w' = lookups w @ cs \<and> distinct (map call_type cs)
           \<and> set (map call_type cs)
               = {t. \<exists>n \<in> fst ` set (truncate_nodes limit nodes0). curie_type n = Some t}
           \<and> (\<forall>c \<in> set cs. call_ids c = map lookup_id
                 (filter (\<lambda>n. curie_type n = Some (call_type c))
                    (map fst (truncate_nodes limit nodes0))))"
    and "\<forall>n \<in> fst ` set (truncate_nodes limit nodes0). has_colon n"
    and "\<forall>n \<in> fst ` set (truncate_nodes limit nodes0). \<forall>t. curie_type n = Some t \<longrightarrow>
           (\<exists>res. lookup_result client f t
              (filter (\<lambda>m. curie_type m = Some t) (map fst (truncate_nodes limit nodes0)))
                = Inr res)"
proof -
  let ?nd = "truncate_nodes limit nodes0"
  let ?keys = "map fst ?nd"
  obtain r w1 where gl: "group_loop [] ?keys w = (r, w1)" by (cases "group_loop [] ?keys w")
  from run inp gl obtain G where r: "r = Inr G"
    by (cases r) (auto simp: annotate_trapi_def Let_def)
  from run inp gl r have at: "annotate_types client a raw f G ?nd w1 = (Inr out, w')"
    by (simp add: annotate_trapi_def Let_def)
  from group_loop_grouped[OF gl[unfolded r] grouped_Nil]
  have gr: "grouped ?keys G" and lw: "lookups w1 = lookups w"
    and ww: "warnings w1 = warnings w @ map skip_warning (filter (\<lambda>n. curie_type n = None) ?keys)"
    and col: "\<forall>n \<in> set ?keys. has_colon n" by auto
  have tys: "\<forall>t nl. (t, nl) \<in> set G \<longrightarrow> nl \<noteq> [] \<and> (\<forall>n \<in> set nl. curie_type n = Some t)"
    using grouped_list(2)[OF gr] grouped_member(1)[OF gr] by blast
  note T = annotate_types_Inr[OF at grouped_distinct[OF gr] tys]
  from T show keys: "map fst out = ?keys" by blast
  from T have Tu: "\<And>n. (\<forall>t nl. (t, nl) \<in> set G \<longrightarrow> n \<notin> set nl) \<Longrightarrow> map_of out n = map_of ?nd n"
    by blast
  from T have Tt: "\<And>t nl n. (t, nl) \<in> set G \<Longrightarrow> n \<in> set nl \<Longrightarrow>
          node_updated a raw (group_records client f t nl n) (map_of ?nd n) (map_of out n)"
    by blast
  show "\<forall>n. node_updated a raw (node_records client f ?nd n) (map_of ?nd n) (map_of out n)"
  proof
    fix n
    show "node_updated a raw (node_records client f ?nd n) (map_of ?nd n) (map_of out n)"
    proof (cases "n \<in> set ?keys \<and> curie_type n \<noteq> None")
      case True
      then obtain t where t: "curie_type n = Some t" and n: "n \<in> set ?keys" by auto
      let ?nl = "filter (\<lambda>m. curie_type m = Some t) ?keys"
      from grouped_has[OF gr n t] have m: "(t, ?nl) \<in> set G" .
      from n t have "n \<in> set ?nl" by simp
      from Tt[OF m this] t show ?thesis by (simp add: node_records_def)
    next
      case False
      have nr: "node_records client f ?nd n = None"
      proof (cases "curie_type n")
        case None
        then show ?thesis by (simp add: node_records_def)
      next
        case (Some t)
        with False have "n \<notin> set ?keys" by simp
        then show ?thesis using Some
          by (simp add: node_records_def group_records_def split: sum.splits)
      qed
      have "\<forall>t nl. (t, nl) \<in> set G \<longrightarrow> n \<notin> set nl"
      proof (intro allI impI notI)
        fix t nl assume m: "(t, nl) \<in> set G" "n \<in> set nl"
        from grouped_member[OF gr m] False show False by simp
      qed
      then have "map_of out n = map_of ?nd n" by (rule Tu)
      with nr show ?thesis by (simp add: node_updated_def)
    qed
  qed
  from T ww show "warnings w' = warnings w @ map skip_warning (filter (\<lambda>n. curie_type n = None) ?keys)"
    by simp
  from T obtain cs where cs: "lookups w' = lookups w1 @ cs"
    "map (\<lambda>c. (call_type c, call_ids c)) cs = map (\<lambda>g. (fst g, map lookup_id (snd g))) G"
    by blast
  from arg_cong[OF cs(2), of "map fst"] have ct: "map call_type cs = map fst G"
    by (simp add: comp_def)
  have ids: "\<forall>c \<in> set cs. call_ids c = map lookup_id (filter (\<lambda>n. curie_type n = Some (call_type c)) ?keys)"
  proof
    fix c assume "c \<in> set cs"
    then have "(call_type c, call_ids c) \<in> (\<lambda>c. (call_type c, call_ids c)) ` set cs"
      by (rule imageI)
    then have "(call_type c, call_ids c) \<in> set (map (\<lambda>g. (fst g, map lookup_id (snd g))) G)"
      using cs(2) by (metis set_map)
    then obtain g where g: "g \<in> set G" "call_type c = fst g" "call_ids c = map lookup_id (snd g)"
      by auto
    from g(1) have "(fst g, snd g) \<in> set G" by simp
    from grouped_list(1)[OF gr this]
    have "snd g = filter (\<lambda>n. curie_type n = Some (fst g)) ?keys" .
    with g show "call_ids c = map lookup_id (filter (\<lambda>n. curie_type n = Some (call_type c)) ?keys)"
      by simp
  qed
  have tyset: "fst ` set G = {t. \<exists>n \<in> fst ` set ?nd. curie_type n = Some t}"
  proof (intro set_eqI iffI)
    fix t assume "t \<in> fst ` set G"
    then obtain nl where m: "(t, nl) \<in> set G" by auto
    from grouped_list(2)[OF gr m] obtain n where n: "n \<in> set nl" by (cases nl) auto
    from grouped_member[OF gr m n] have "n \<in> set ?keys" "curie_type n = Some t" by simp_all
    then show "t \<in> {t. \<exists>n \<in> fst ` set ?nd. curie_type n = Some t}" by auto
  next
    fix t assume "t \<in> {t. \<exists>n \<in> fst ` set ?nd. curie_type n = Some t}"
    then obtain n where n: "n \<in> set ?keys" "curie_type n = Some t" by auto
    from grouped_has[OF gr n] show "t \<in> fst ` set G" by (rule rev_image_eqI) simp
  qed
  show "\<exists>cs. lookups w' = lookups w @ cs \<and> distinct (map call_type cs)
           \<and> set (map call_type cs) = {t. \<exists>n \<in> fst ` set ?nd. curie_type n = Some t}
           \<and> (\<forall>c \<in> set cs. call_ids c = map lookup_id
                 (filter (\<lambda>n. curie_type n = Some (call_type c)) ?keys))"
    using cs(1) lw ct grouped_distinct[OF gr] tyset ids
    by (intro exI[of _ cs]) simp
  from col show "\<forall>n \<in> fst ` set ?nd. has_colon n" by simp
  from T have Tr: "\<And>t nl. (t, nl) \<in> set G \<Longrightarrow> \<exists>res. lookup_result client f t nl = Inr res"
    by blast
  show "\<forall>n \<in> fst ` set ?nd. \<forall>t. curie_type n = Some t \<longrightarrow>
           (\<exists>res. lookup_result client f t (filter (\<lambda>m. curie_type m = Some t) ?keys) = Inr res)"
  proof (intro ballI allI impI)
    fix n t assume "n \<in> fst ` set ?nd" and t: "curie_type n = Some t"
    then have n: "n \<in> set ?keys" by simp
    from grouped_has[OF gr n t] show
      "\<exists>res. lookup_result client f t (filter (\<lambda>m. curie_type m = Some t) ?keys) = Inr res"
      by (rule Tr)
  qed
qed

lemma input_nodes_message: "input_nodes (trapi_message node_d) = Inr node_d"
  by (simp add: input_nodes_def trapi_message_def)

lemma run_pair:
  assumes "fst r = Inr out"
  obtains w' where "r = (Inr out, w')"
  using assms by (cases r) simp

lemma set_node_types:
  "set (node_types nd) = {t. \<exists>n \<in> fst ` set nd. curie_type n = Some t}"
  by (auto simp: node_types_def map_filter_def image_iff) force+

lemma annotate_types_lookups:
  "\<exists>cs. lookups (snd (annotate_types client a raw f gs nd w)) = lookups w @ cs
        \<and> length cs \<le> length gs"
proof (induction gs arbitrary: nd w)
  case Nil
  then show ?case by simp
next
  case (Cons g gs)
  obtain t nl where g: "g = (t, nl)" by (cases g)
  show ?case
  proof (cases "map_of annotator_clients t = None \<or> nl = []")
    case True
    with Cons.IH[of nd w] g show ?thesis by auto
  next
    case False
    then obtain cfg where cl: "map_of annotator_clients t = Some cfg" and ne: "nl \<noteq> []" by auto
    show ?thesis
    proof (cases "map_err query_id nl")
      case (Inl e)
      with cl ne g show ?thesis by simp
    next
      case (Inr ql)
      obtain r w1 where q: "query_biothings client t ql f w = (r, w1)"
        by (cases "query_biothings client t ql f w")
      from query_biothings_world[OF q] obtain c1 where
        c1: "lookups w1 = lookups w @ c1" "length c1 \<le> 1" by blast
      show ?thesis
      proof (cases r)
        case (Inl e)
        with cl ne g \<open>map_err query_id nl = Inr ql\<close> q c1 show ?thesis by (simp add: Let_def)
      next
        case (Inr res)
        show ?thesis
        proof (cases "annotate_results a raw (dict_zip ql nl) res nd")
          case (Inl e)
          with cl ne g \<open>map_err query_id nl = Inr ql\<close> q c1 \<open>r = Inr res\<close>
          show ?thesis by (simp add: Let_def)
        next
          case (Inr nd1)
          from Cons.IH[of nd1 w1] obtain cs where
            cs: "lookups (snd (annotate_types client a raw f gs nd1 w1)) = lookups w1 @ cs"
                "length cs \<le> length gs" by blast
          have "annotate_types client a raw f (g # gs) nd w
                  = annotate_types client a raw f gs nd1 w1"
            using cl ne g \<open>map_err query_id nl = Inr ql\<close> q \<open>r = Inr res\<close> Inr
            by (simp add: Let_def)
          with cs c1 show ?thesis by (intro exI[of _ "c1 @ cs"]) simp
        qed
      qed
    qed
  qed
qed


lemma grouped_types:
  assumes gr: "grouped keys G"
  shows "fst ` set G = {t. \<exists>n \<in> set keys. curie_type n = Some t}"
proof (intro set_eqI iffI)
  fix t assume "t \<in> fst ` set G"
  then obtain nl where m: "(t, nl) \<in> set G" by auto
  from grouped_list(2)[OF gr m] obtain n where n: "n \<in> set nl" by (cases nl) auto
  from grouped_member[OF gr m n] have "n \<in> set keys" "curie_type n = Some t" by simp_all
  then show "t \<in> {t. \<exists>n \<in> set keys. curie_type n = Some t}" by auto
next
  fix t assume "t \<in> {t. \<exists>n \<in> set keys. curie_type n = Some t}"
  then obtain n where n: "n \<in> set keys" "curie_type n = Some t" by auto
  from grouped_has[OF gr n] show "t \<in> fst ` set G" by (rule rev_image_eqI) simp
qed

lemma grouped_length:
  assumes gr: "grouped (map fst nd) G"
  shows "length G = length (node_types nd)"
proof -
  have "set (map fst G) = set (node_types nd)"
    using grouped_types[OF gr] by (simp add: set_node_types)
  moreover have "distinct (map fst G)" using gr by (rule grouped_distinct)
  moreover have "distinct (node_types nd)" by (simp add: node_types_def)
  ultimately have "length (map fst G) = length (node_types nd)"
    by (metis distinct_card)
  then show ?thesis by simp
qed

lemma last_filter_later:
  assumes "distinct (xs @ n1 # ys @ n2 # zs)" "P n2"
  shows "last (filter P (xs @ n1 # ys @ n2 # zs)) \<noteq> n1"
proof -
  have "filter P (xs @ n1 # ys @ n2 # zs)
          = (filter P xs @ filter P (n1 # ys)) @ n2 # filter P zs"
    using assms(2) by simp
  then have "last (filter P (xs @ n1 # ys @ n2 # zs)) = last (n2 # filter P zs)"
    by (simp only: last_append) simp
  moreover have "last (n2 # filter P zs) \<in> set (n2 # filter P zs)"
    by (rule last_in_set) simp
  then have "last (n2 # filter P zs) \<in> set (n2 # zs)" by auto
  moreover have "n1 \<notin> set (n2 # zs)" using assms(1) by auto
  ultimately show ?thesis by auto
qed

lemma last_filter_last:
  assumes "P n2" "\<forall>m \<in> set zs. \<not> P m"
  shows "last (filter P (xs @ n2 # zs)) = n2"
proof -
  from assms(2) have "filter P zs = []" by (simp add: filter_empty_conv)
  with assms(1) show ?thesis by simp
qed

subsection \<open>Well-formed inputs\<close>

lemma attach_ok:
  assumes "node_ok v"
  shows "(\<exists>v'. attach a e v = Inr v' \<and> node_ok v' \<and> \<not> lacks_attributes v')
       \<or> (attach a e v = Inl KeyError \<and> a \<and> lacks_attributes v)"
proof -
  from assms obtain kvs where v: "v = JObj kvs"
    by (cases v) (simp_all add: node_ok_def)
  show ?thesis
  proof (cases a)
    case False
    let ?v' = "JObj (AList.update ''attributes'' (JList [e]) kvs)"
    have "attach a e v = Inr ?v'" using False v by (simp add: attach_def)
    moreover have "node_ok ?v'" "\<not> lacks_attributes ?v'"
      by (simp_all add: node_ok_def lacks_attributes_def update_conv')
    ultimately show ?thesis by blast
  next
    case True
    show ?thesis
    proof (cases "map_of kvs ''attributes''")
      case None
      with True v show ?thesis by (simp add: attach_def lacks_attributes_def)
    next
      case (Some x)
      with assms v obtain attrs where x: "x = JList attrs"
        by (cases x) (simp_all add: node_ok_def)
      let ?v' = "JObj (AList.update ''attributes'' (JList (attrs @ [e])) kvs)"
      have "attach a e v = Inr ?v'" using True v Some x by (simp add: attach_def)
      moreover have "node_ok ?v'" "\<not> lacks_attributes ?v'"
        by (simp_all add: node_ok_def lacks_attributes_def update_conv')
      ultimately show ?thesis by blast
    qed
  qed
qed

lemma set_update_cases:
  "(n, v) \<in> set (AList.update k v' al) \<Longrightarrow> (n, v) = (k, v') \<or> (n, v) \<in> set al"
  by (induction al) (auto split: if_splits)

lemma annotate_node_ok:
  assumes ok: "\<forall>nv \<in> set nd. node_ok (snd nv)"
    and o: "orig_node d k = Some orig" and mem: "orig \<in> fst ` set nd"
    and tr: "raw \<or> \<not> isl (map_err transform recs)"
  shows "(\<exists>nd1. annotate_node a raw d k recs nd = Inr nd1
            \<and> (\<forall>nv \<in> set nd1. node_ok (snd nv))
            \<and> map fst nd1 = map fst nd
            \<and> ((\<exists>nv \<in> set nd1. lacks_attributes (snd nv)) \<longrightarrow> (\<exists>nv \<in> set nd. lacks_attributes (snd nv))))
       \<or> (annotate_node a raw d k recs nd = Inl KeyError \<and> a
            \<and> (\<exists>nv \<in> set nd. lacks_attributes (snd nv)))"
proof -
  from tr obtain recs' where r: "(if \<not> raw then map_err transform recs else Inr recs) = Inr recs'"
    by (cases raw; cases "map_err transform recs") auto
  from mem obtain v where v: "map_of nd orig = Some v"
    by (metis map_of_eq_None_iff not_Some_eq)
  then have vin: "(orig, v) \<in> set nd" by (rule map_of_SomeD)
  with ok have nv: "node_ok v" by force
  from attach_ok[OF nv, of a "envelope recs'"] show ?thesis
  proof
    assume "\<exists>v'. attach a (envelope recs') v = Inr v' \<and> node_ok v' \<and> \<not> lacks_attributes v'"
    then obtain v' where a1: "attach a (envelope recs') v = Inr v'" and a2: "node_ok v'"
      and a3: "\<not> lacks_attributes v'" by blast
    let ?nd1 = "AList.update orig v' nd"
    have run: "annotate_node a raw d k recs nd = Inr ?nd1"
      using o r v a1 by (simp add: annotate_node_def)
    have ok1: "\<forall>nv \<in> set ?nd1. node_ok (snd nv)"
    proof
      fix nv assume "nv \<in> set ?nd1"
      then have "(fst nv, snd nv) \<in> set ?nd1" by simp
      from set_update_cases[OF this] ok a2 show "node_ok (snd nv)" by force
    qed
    have keys: "map fst ?nd1 = map fst nd" using mem by (rule update_keys_same)
    have lack: "(\<exists>nv \<in> set ?nd1. lacks_attributes (snd nv)) \<longrightarrow> (\<exists>nv \<in> set nd. lacks_attributes (snd nv))"
    proof
      assume "\<exists>nv \<in> set ?nd1. lacks_attributes (snd nv)"
      then obtain nv where m: "nv \<in> set ?nd1" and l: "lacks_attributes (snd nv)" by blast
      from m have "(fst nv, snd nv) \<in> set ?nd1" by simp
      from set_update_cases[OF this] l a3 have "(fst nv, snd nv) \<in> set nd" by auto
      with l show "\<exists>nv \<in> set nd. lacks_attributes (snd nv)" by force
    qed
    from run ok1 keys lack show ?thesis by blast
  next
    assume f: "attach a (envelope recs') v = Inl KeyError \<and> a \<and> lacks_attributes v"
    then have f1: "attach a (envelope recs') v = Inl KeyError" and f2: a
      and f3: "lacks_attributes v" by blast+
    have "annotate_node a raw d k recs nd = Inl KeyError"
      using o r v f1 by (simp add: annotate_node_def)
    moreover have "\<exists>nv \<in> set nd. lacks_attributes (snd nv)" using vin f3 by force
    ultimately show ?thesis using f2 by blast
  qed
qed

lemma annotate_results_ok:
  assumes "\<forall>nv \<in> set nd. node_ok (snd nv)"
    and "\<forall>kr \<in> set res. (\<exists>orig. orig_node d (fst kr) = Some orig \<and> orig \<in> fst ` set nd)
                         \<and> (raw \<or> \<not> isl (map_err transform (snd kr)))"
  shows "(\<exists>out. annotate_results a raw d res nd = Inr out
            \<and> (\<forall>nv \<in> set out. node_ok (snd nv))
            \<and> map fst out = map fst nd
            \<and> ((\<exists>nv \<in> set out. lacks_attributes (snd nv)) \<longrightarrow> (\<exists>nv \<in> set nd. lacks_attributes (snd nv))))
       \<or> (annotate_results a raw d res nd = Inl KeyError \<and> a
            \<and> (\<exists>nv \<in> set nd. lacks_attributes (snd nv)))"
  using assms
proof (induction res arbitrary: nd)
  case Nil
  then show ?case by simp
next
  case (Cons e res)
  obtain k recs where e: "e = (k, recs)" by (cases e)
  from Cons.prems(2) e obtain orig where o: "orig_node d k = Some orig" "orig \<in> fst ` set nd"
    and tr: "raw \<or> \<not> isl (map_err transform recs)" by auto
  from annotate_node_ok[OF Cons.prems(1) o tr, of a] show ?case
  proof
    assume "\<exists>nd1. annotate_node a raw d k recs nd = Inr nd1
            \<and> (\<forall>nv \<in> set nd1. node_ok (snd nv))
            \<and> map fst nd1 = map fst nd
            \<and> ((\<exists>nv \<in> set nd1. lacks_attributes (snd nv)) \<longrightarrow> (\<exists>nv \<in> set nd. lacks_attributes (snd nv)))"
    then obtain nd1 where n1: "annotate_node a raw d k recs nd = Inr nd1"
      and ok1: "\<forall>nv \<in> set nd1. node_ok (snd nv)" and k1: "map fst nd1 = map fst nd"
      and l1: "(\<exists>nv \<in> set nd1. lacks_attributes (snd nv)) \<longrightarrow> (\<exists>nv \<in> set nd. lacks_attributes (snd nv))"
      by blast
    from k1 have ks: "fst ` set nd1 = fst ` set nd" by (metis list.set_map)
    have p2: "\<forall>kr \<in> set res. (\<exists>orig. orig_node d (fst kr) = Some orig \<and> orig \<in> fst ` set nd1)
                         \<and> (raw \<or> \<not> isl (map_err transform (snd kr)))"
      using Cons.prems(2) ks by simp
    have step: "annotate_results a raw d (e # res) nd = annotate_results a raw d res nd1"
      using e n1 by simp
    from Cons.IH[OF ok1 p2] show ?thesis
    proof
      assume "\<exists>out. annotate_results a raw d res nd1 = Inr out
            \<and> (\<forall>nv \<in> set out. node_ok (snd nv))
            \<and> map fst out = map fst nd1
            \<and> ((\<exists>nv \<in> set out. lacks_attributes (snd nv)) \<longrightarrow> (\<exists>nv \<in> set nd1. lacks_attributes (snd nv)))"
      then obtain out where "annotate_results a raw d res nd1 = Inr out"
        "\<forall>nv \<in> set out. node_ok (snd nv)" "map fst out = map fst nd1"
        "(\<exists>nv \<in> set out. lacks_attributes (snd nv)) \<longrightarrow> (\<exists>nv \<in> set nd1. lacks_attributes (snd nv))"
        by blast
      with step k1 l1 have "annotate_results a raw d (e # res) nd = Inr out
            \<and> (\<forall>nv \<in> set out. node_ok (snd nv))
            \<and> map fst out = map fst nd
            \<and> ((\<exists>nv \<in> set out. lacks_attributes (snd nv)) \<longrightarrow> (\<exists>nv \<in> set nd. lacks_attributes (snd nv)))"
        by (simp only:) blast
      then show ?thesis by blast
    next
      assume "annotate_results a raw d res nd1 = Inl KeyError \<and> a
            \<and> (\<exists>nv \<in> set nd1. lacks_attributes (snd nv))"
      then have g1: "annotate_results a raw d res nd1 = Inl KeyError" and g2: a
        and g3: "\<exists>nv \<in> set nd1. lacks_attributes (snd nv)" by blast+
      from g1 step have "annotate_results a raw d (e # res) nd = Inl KeyError" by (simp only:)
      moreover from g3 l1 have "\<exists>nv \<in> set nd. lacks_attributes (snd nv)" by blast
      ultimately show ?thesis using g2 by blast
    qed
  next
    assume f: "annotate_node a raw d k recs nd = Inl KeyError \<and> a
            \<and> (\<exists>nv \<in> set nd. lacks_attributes (snd nv))"
    then have f1: "annotate_node a raw d k recs nd = Inl KeyError" by blast
    have "annotate_results a raw d (e # res) nd = Inl KeyError" using e f1 by simp
    with f show ?thesis by blast
  qed
qed


lemma orig_node_member:
  assumes "m \<in> set nl"
  shows "\<exists>orig. orig_node (dict_zip (map lookup_id nl) nl) (JStr (lookup_id m)) = Some orig
           \<and> orig \<in> set nl"
proof -
  let ?ms = "filter (\<lambda>x. lookup_id x = lookup_id m) nl"
  from assms have ne: "?ms \<noteq> []" by (auto simp: filter_empty_conv)
  then have "last ?ms \<in> set ?ms" by (rule last_in_set)
  then have "last ?ms \<in> set nl" by simp
  with ne show ?thesis by (simp add: orig_node_def dict_zip_last)
qed

lemma annotate_types_ok:
  assumes "\<forall>nv \<in> set nd. node_ok (snd nv)"
    and "\<forall>g \<in> set gs. snd g \<noteq> []
           \<and> (\<forall>n \<in> set (snd g). curie_type n = Some (fst g) \<and> n \<in> fst ` set nd)
           \<and> group_ok client f raw (fst g) (snd g)"
  shows "(\<exists>out. fst (annotate_types client a raw f gs nd w) = Inr out)
       \<or> (fst (annotate_types client a raw f gs nd w) = Inl KeyError \<and> a
            \<and> (\<exists>nv \<in> set nd. lacks_attributes (snd nv)))"
  using assms
proof (induction gs arbitrary: nd w)
  case Nil
  then show ?case by simp
next
  case (Cons g gs)
  obtain t nl where g: "g = (t, nl)" by (cases g)
  from Cons.prems(2) g have ne: "nl \<noteq> []"
    and ty: "\<forall>n \<in> set nl. curie_type n = Some t" and mem: "\<forall>n \<in> set nl. n \<in> fst ` set nd"
    and gok: "group_ok client f raw t nl" by auto
  from ty ne have "map_of annotator_clients t \<noteq> None"
    by (metis clients_known curie_type_client last_in_set)
  then obtain cfg where cl: "map_of annotator_clients t = Some cfg" by auto
  from ty have col: "\<forall>n \<in> set nl. has_colon n" by (auto dest: curie_type_colon)
  let ?ql = "map lookup_id nl"
  let ?d = "dict_zip ?ql nl"
  have ql: "map_err query_id nl = Inr ?ql"
    using col by (intro map_err_all) (simp add: query_id_colon)
  obtain r w1 where q: "query_biothings client t ?ql f w = (r, w1)"
    by (cases "query_biothings client t ?ql f w")
  from gok obtain res where lr: "lookup_result client f t nl = Inr res"
    and keys: "\<forall>kr \<in> set res. fst kr \<in> set (map (\<lambda>m. JStr (lookup_id m)) nl)
                 \<and> (raw \<or> \<not> isl (map_err transform (snd kr)))"
    by (auto simp: group_ok_def split: sum.splits)
  have "map_of annotator_clients t \<noteq> None" using cl by simp
  from query_biothings_result[OF q this, of "\<lparr>lookups = [], warnings = []\<rparr>"] lr
  have r: "r = Inr res" by (simp add: lookup_result_def)
  have p2: "\<forall>kr \<in> set res. (\<exists>orig. orig_node ?d (fst kr) = Some orig \<and> orig \<in> fst ` set nd)
                         \<and> (raw \<or> \<not> isl (map_err transform (snd kr)))"
  proof
    fix kr assume "kr \<in> set res"
    with keys have k: "fst kr \<in> set (map (\<lambda>m. JStr (lookup_id m)) nl)"
      and tr: "raw \<or> \<not> isl (map_err transform (snd kr))" by auto
    from k obtain m where m: "m \<in> set nl" "fst kr = JStr (lookup_id m)" by auto
    from orig_node_member[OF m(1)] m(2) mem
    have "\<exists>orig. orig_node ?d (fst kr) = Some orig \<and> orig \<in> fst ` set nd" by auto
    with tr show "(\<exists>orig. orig_node ?d (fst kr) = Some orig \<and> orig \<in> fst ` set nd)
                         \<and> (raw \<or> \<not> isl (map_err transform (snd kr)))" by blast
  qed
  from annotate_results_ok[OF Cons.prems(1) p2, of a] show ?case
  proof
    assume "\<exists>out. annotate_results a raw ?d res nd = Inr out
            \<and> (\<forall>nv \<in> set out. node_ok (snd nv))
            \<and> map fst out = map fst nd
            \<and> ((\<exists>nv \<in> set out. lacks_attributes (snd nv)) \<longrightarrow> (\<exists>nv \<in> set nd. lacks_attributes (snd nv)))"
    then obtain nd1 where n1: "annotate_results a raw ?d res nd = Inr nd1"
      and ok1: "\<forall>nv \<in> set nd1. node_ok (snd nv)" and k1: "map fst nd1 = map fst nd"
      and l1: "(\<exists>nv \<in> set nd1. lacks_attributes (snd nv)) \<longrightarrow> (\<exists>nv \<in> set nd. lacks_attributes (snd nv))"
      by blast
    from k1 have ks: "fst ` set nd1 = fst ` set nd" by (metis list.set_map)
    have step: "annotate_types client a raw f (g # gs) nd w
                  = annotate_types client a raw f gs nd1 w1"
      using g cl ne ql q r n1 by (simp add: Let_def)
    have p3: "\<forall>g \<in> set gs. snd g \<noteq> []
           \<and> (\<forall>n \<in> set (snd g). curie_type n = Some (fst g) \<and> n \<in> fst ` set nd1)
           \<and> group_ok client f raw (fst g) (snd g)"
      using Cons.prems(2) ks by simp
    from Cons.IH[OF ok1 p3, of w1] show ?thesis
    proof
      assume "\<exists>out. fst (annotate_types client a raw f gs nd1 w1) = Inr out"
      with step show ?thesis by (simp only:) blast
    next
      assume "fst (annotate_types client a raw f gs nd1 w1) = Inl KeyError \<and> a
            \<and> (\<exists>nv \<in> set nd1. lacks_attributes (snd nv))"
      then have g1: "fst (annotate_types client a raw f gs nd1 w1) = Inl KeyError" and g2: a
        and g3: "\<exists>nv \<in> set nd1. lacks_attributes (snd nv)" by blast+
      from g1 step have "fst (annotate_types client a raw f (g # gs) nd w) = Inl KeyError"
        by (simp only:)
      moreover from g3 l1 have "\<exists>nv \<in> set nd. lacks_attributes (snd nv)" by blast
      ultimately show ?thesis using g2 by blast
    qed
  next
    assume "annotate_results a raw ?d res nd = Inl KeyError \<and> a
            \<and> (\<exists>nv \<in> set nd. lacks_attributes (snd nv))"
    then have f1: "annotate_results a raw ?d res nd = Inl KeyError" and f2: a
      and f3: "\<exists>nv \<in> set nd. lacks_attributes (snd nv)" by blast+
    have "fst (annotate_types client a raw f (g # gs) nd w) = Inl KeyError"
      using g cl ne ql q r f1 by (simp add: Let_def)
    with f2 f3 show ?thesis by blast
  qed
qed

lemma annotate_trapi_ok:
  assumes inp: "input_nodes trapi_input = Inr nodes0"
    and col: "\<forall>n \<in> set (map fst (truncate_nodes limit nodes0)). has_colon n"
    and nok: "\<forall>nv \<in> set (truncate_nodes limit nodes0). node_ok (snd nv)"
    and rok: "results_ok client f raw (truncate_nodes limit nodes0)"
  shows "(\<exists>out. fst (annotate_trapi client trapi_input a raw f limit w) = Inr out)
       \<or> (fst (annotate_trapi client trapi_input a raw f limit w) = Inl KeyError \<and> a
            \<and> (\<exists>nv \<in> set (truncate_nodes limit nodes0). lacks_attributes (snd nv)))"
proof -
  let ?nd = "truncate_nodes limit nodes0"
  let ?keys = "map fst ?nd"
  from group_loop_colons[OF col, of "[]" w] obtain G w1 where
    gl: "group_loop [] ?keys w = (Inr G, w1)" by blast
  from group_loop_grouped[OF gl grouped_Nil] have gr: "grouped ?keys G" by simp
  have run: "annotate_trapi client trapi_input a raw f limit w
               = annotate_types client a raw f G ?nd w1"
    using inp gl by (simp add: annotate_trapi_def Let_def)
  have p: "\<forall>g \<in> set G. snd g \<noteq> []
           \<and> (\<forall>n \<in> set (snd g). curie_type n = Some (fst g) \<and> n \<in> fst ` set ?nd)
           \<and> group_ok client f raw (fst g) (snd g)"
  proof
    fix g assume "g \<in> set G"
    then have m: "(fst g, snd g) \<in> set G" by simp
    have a1: "snd g \<noteq> []" using grouped_list(2)[OF gr m] .
    have a2: "\<forall>n \<in> set (snd g). curie_type n = Some (fst g) \<and> n \<in> fst ` set ?nd"
      using grouped_member[OF gr m] by simp
    have "fst g \<in> fst ` set G" using m by (rule rev_image_eqI) simp
    then have "fst g \<in> set (node_types ?nd)"
      using grouped_types[OF gr] by (simp add: set_node_types)
    with rok have "group_ok client f raw (fst g) (filter (\<lambda>m. curie_type m = Some (fst g)) ?keys)"
      by (simp add: results_ok_def)
    with grouped_list(1)[OF gr m] have a3: "group_ok client f raw (fst g) (snd g)" by simp
    from a1 a2 a3 show "snd g \<noteq> []
           \<and> (\<forall>n \<in> set (snd g). curie_type n = Some (fst g) \<and> n \<in> fst ` set ?nd)
           \<and> group_ok client f raw (fst g) (snd g)" by blast
  qed
  from annotate_types_ok[OF nok p, of a w1] run show ?thesis by (simp only:)
qed

subsection \<open>Skipped nodes\<close>

lemma group_loop_filter:
  "fst (group_loop acc (filter (\<lambda>n. \<not> skipped n) keys) w2) = fst (group_loop acc keys w)"
proof (induction keys arbitrary: acc w w2)
  case Nil
  then show ?case by simp
next
  case (Cons n keys)
  show ?case
  proof (cases "has_colon n")
    case False
    then show ?thesis by (simp add: skipped_def group_loop_step)
  next
    case True
    show ?thesis
    proof (cases "curie_type n")
      case None
      with True have "skipped n" by (simp add: skipped_def)
      with True None Cons.IH show ?thesis by (simp add: group_loop_step)
    next
      case (Some t)
      then have "\<not> skipped n" by (simp add: skipped_def)
      with True Some Cons.IH show ?thesis
        by (simp add: group_loop_step split: option.splits)
    qed
  qed
qed

lemma group_loop_no_colon:
  "\<exists>n \<in> set keys. \<not> has_colon n \<Longrightarrow> \<exists>m. fst (group_loop acc keys w) = Inl (InvalidCurieError m)"
proof (induction keys arbitrary: acc w)
  case Nil
  then show ?case by simp
next
  case (Cons n keys)
  show ?case
  proof (cases "has_colon n")
    case False
    then show ?thesis by (simp add: group_loop_step)
  next
    case True
    with Cons.prems have "\<exists>n \<in> set keys. \<not> has_colon n" by auto
    from Cons.IH[OF this] True show ?thesis
      by (simp add: group_loop_step split: option.splits)
  qed
qed

lemma update_filter:
  "P k \<Longrightarrow> AList.update k v (filter (\<lambda>kv. P (fst kv)) al)
             = filter (\<lambda>kv. P (fst kv)) (AList.update k v al)"
  by (induction al) auto

lemma map_of_filter_key:
  "P k \<Longrightarrow> map_of (filter (\<lambda>kv. P (fst kv)) al) k = map_of al k"
  by (induction al) auto

lemma annotate_node_filter:
  assumes "\<forall>orig. orig_node d k = Some orig \<longrightarrow> P orig"
  shows "annotate_node a raw d k recs (filter (\<lambda>kv. P (fst kv)) nd)
           = map_sum id (filter (\<lambda>kv. P (fst kv))) (annotate_node a raw d k recs nd)"
proof (cases "orig_node d k")
  case None
  then show ?thesis by (simp add: annotate_node_def)
next
  case (Some orig)
  with assms have "P orig" by simp
  then show ?thesis using Some
    by (simp add: annotate_node_def map_of_filter_key update_filter
             split: sum.splits option.splits)
qed

lemma annotate_results_filter:
  assumes "\<forall>kr \<in> set res. \<forall>orig. orig_node d (fst kr) = Some orig \<longrightarrow> P orig"
  shows "annotate_results a raw d res (filter (\<lambda>kv. P (fst kv)) nd)
           = map_sum id (filter (\<lambda>kv. P (fst kv))) (annotate_results a raw d res nd)"
  using assms
proof (induction res arbitrary: nd)
  case Nil
  then show ?case by simp
next
  case (Cons e res)
  obtain k recs where e: "e = (k, recs)" by (cases e)
  from Cons.prems e have h: "\<forall>orig. orig_node d k = Some orig \<longrightarrow> P orig"
    and r: "\<forall>kr \<in> set res. \<forall>orig. orig_node d (fst kr) = Some orig \<longrightarrow> P orig" by auto
  show ?case
  proof (cases "annotate_node a raw d k recs nd")
    case (Inl x)
    with e annotate_node_filter[OF h, of a raw recs nd] show ?thesis by simp
  next
    case (Inr nd1)
    with e annotate_node_filter[OF h, of a raw recs nd] Cons.IH[OF r, of nd1]
    show ?thesis by simp
  qed
qed

lemma dict_zip_value:
  assumes "map_of (dict_zip ks vs) q = Some n"
  shows "n \<in> set vs"
proof -
  from assms have "map_of (rev (zip ks vs)) q = Some n"
    by (simp add: dict_zip_def map_of_fold_update)
  then have "(q, n) \<in> set (rev (zip ks vs))" by (rule map_of_SomeD)
  then show ?thesis by (auto dest: set_zip_rightD)
qed

lemma annotate_types_filter:
  assumes "\<forall>g \<in> set gs. \<forall>n \<in> set (snd g). P n"
  shows "annotate_types client a raw f gs (filter (\<lambda>kv. P (fst kv)) nd) w
           = (map_sum id (filter (\<lambda>kv. P (fst kv))) (fst (annotate_types client a raw f gs nd w)),
              snd (annotate_types client a raw f gs nd w))"
  using assms
proof (induction gs arbitrary: nd w)
  case Nil
  then show ?case by simp
next
  case (Cons g gs)
  obtain t nl where g: "g = (t, nl)" by (cases g)
  from Cons.prems g have pn: "\<forall>n \<in> set nl. P n"
    and rest: "\<forall>g \<in> set gs. \<forall>n \<in> set (snd g). P n" by auto
  show ?case
  proof (cases "map_of annotator_clients t = None \<or> nl = []")
    case True
    with g Cons.IH[OF rest, of nd w] show ?thesis by auto
  next
    case False
    then obtain cfg where cl: "map_of annotator_clients t = Some cfg" and ne: "nl \<noteq> []" by auto
    show ?thesis
    proof (cases "map_err query_id nl")
      case (Inl e)
      with g cl ne show ?thesis by simp
    next
      case (Inr ql)
      note ql = this
      obtain r w1 where q: "query_biothings client t ql f w = (r, w1)"
        by (cases "query_biothings client t ql f w")
      show ?thesis
      proof (cases r)
        case (Inl e)
        with g cl ne ql q show ?thesis by (simp add: Let_def)
      next
        case (Inr res)
        note r = this
        have tg: "\<forall>kr \<in> set res. \<forall>orig. orig_node (dict_zip ql nl) (fst kr) = Some orig \<longrightarrow> P orig"
        proof (intro ballI allI impI)
          fix kr orig assume "orig_node (dict_zip ql nl) (fst kr) = Some orig"
          then obtain s where "map_of (dict_zip ql nl) s = Some orig"
            by (auto simp: orig_node_def split: json.splits)
          from dict_zip_value[OF this] pn show "P orig" by simp
        qed
        note F = annotate_results_filter[OF tg, of a raw nd]
        show ?thesis
        proof (cases "annotate_results a raw (dict_zip ql nl) res nd")
          case (Inl e)
          with g cl ne ql q r F show ?thesis by (simp add: Let_def)
        next
          case (Inr nd1)
          with g cl ne ql q r F Cons.IH[OF rest, of nd1 w1] show ?thesis by (simp add: Let_def)
        qed
      qed
    qed
  qed
qed


lemma query_biothings_calls:
  "\<exists>r cs. \<forall>w. query_biothings client t ql f w = (r, w\<lparr>lookups := lookups w @ cs\<rparr>)"
proof (cases "map_of annotator_clients t")
  case None
  then have "\<forall>w. query_biothings client t ql f w = (Inl KeyError, w\<lparr>lookups := lookups w @ []\<rparr>)"
    by (simp add: query_biothings_def)
  then show ?thesis by blast
next
  case (Some cfg)
  let ?c = "\<lparr>call_type = t, call_ids = ql, call_scopes = cfg_scopes cfg,
             call_fields = (case f of None \<Rightarrow> FieldsList (cfg_fields cfg)
                            | Some s \<Rightarrow> if s = [] then FieldsList (cfg_fields cfg) else FieldsStr s)\<rparr>"
  let ?r = "case client ?c of Inl e \<Rightarrow> Inl e | Inr res \<Rightarrow> list2dict res ''query''"
  have "\<forall>w. query_biothings client t ql f w = (?r, w\<lparr>lookups := lookups w @ [?c]\<rparr>)"
    using Some by (simp add: query_biothings_def Let_def split: sum.splits)
  then show ?thesis by blast
qed

lemma annotate_types_calls:
  "\<exists>r cs. \<forall>w. annotate_types client a raw f gs nd w = (r, w\<lparr>lookups := lookups w @ cs\<rparr>)"
proof (induction gs arbitrary: nd)
  case Nil
  have "\<forall>w. annotate_types client a raw f [] nd w = (Inr nd, w\<lparr>lookups := lookups w @ []\<rparr>)"
    by simp
  then show ?case by blast
next
  case (Cons g gs)
  obtain t nl where g: "g = (t, nl)" by (cases g)
  show ?case
  proof (cases "map_of annotator_clients t = None \<or> nl = []")
    case True
    with g Cons.IH[of nd] show ?thesis by auto
  next
    case False
    then obtain cfg where cl: "map_of annotator_clients t = Some cfg" and ne: "nl \<noteq> []" by auto
    show ?thesis
    proof (cases "map_err query_id nl")
      case (Inl e)
      with g cl ne have "\<forall>w. annotate_types client a raw f (g # gs) nd w
            = (Inl e, w\<lparr>lookups := lookups w @ []\<rparr>)" by simp
      then show ?thesis by blast
    next
      case (Inr ql)
      note ql = this
      from query_biothings_calls[of client t ql f] obtain r c1 where
        q: "\<forall>w. query_biothings client t ql f w = (r, w\<lparr>lookups := lookups w @ c1\<rparr>)" by blast
      show ?thesis
      proof (cases r)
        case (Inl e)
        with g cl ne ql q have "\<forall>w. annotate_types client a raw f (g # gs) nd w
            = (Inl e, w\<lparr>lookups := lookups w @ c1\<rparr>)" by (simp add: Let_def)
        then show ?thesis by blast
      next
        case (Inr res)
        note r = this
        show ?thesis
        proof (cases "annotate_results a raw (dict_zip ql nl) res nd")
          case (Inl e)
          with g cl ne ql q r have "\<forall>w. annotate_types client a raw f (g # gs) nd w
            = (Inl e, w\<lparr>lookups := lookups w @ c1\<rparr>)" by (simp add: Let_def)
          then show ?thesis by blast
        next
          case (Inr nd1)
          from Cons.IH[of nd1] obtain r2 c2 where
            ih: "\<forall>w. annotate_types client a raw f gs nd1 w = (r2, w\<lparr>lookups := lookups w @ c2\<rparr>)"
            by blast
          with g cl ne ql q r Inr have "\<forall>w. annotate_types client a raw f (g # gs) nd w
            = (r2, w\<lparr>lookups := lookups w @ (c1 @ c2)\<rparr>)" by (simp add: Let_def)
          then show ?thesis by blast
        qed
      qed
    qed
  qed
qed

subsection \<open>Calls that return\<close>

lemma annotate_results_progress:
  assumes "distinct (map fst res)"
    and "\<forall>k k' n. orig_node d k = Some n \<longrightarrow> orig_node d k' = Some n \<longrightarrow> k = k'"
    and "\<forall>kr \<in> set res. \<exists>orig v v'. orig_node d (fst kr) = Some orig
            \<and> map_of nd orig = Some v \<and> attach_records a raw (snd kr) v = Inr v'"
  shows "\<exists>out. annotate_results a raw d res nd = Inr out"
  using assms(1,3)
proof (induction res arbitrary: nd)
  case Nil
  then show ?case by simp
next
  case (Cons e res)
  obtain k recs where e: "e = (k, recs)" by (cases e)
  from Cons.prems(2) e obtain orig v v' where o: "orig_node d k = Some orig"
    "map_of nd orig = Some v" "attach_records a raw recs v = Inr v'" by force
  let ?nd1 = "AList.update orig v' nd"
  have n1: "annotate_node a raw d k recs nd = Inr ?nd1"
    using o by (auto simp: annotate_node_Inr)
  from Cons.prems(1) e have dres: "distinct (map fst res)" and knot: "k \<notin> fst ` set res" by auto
  have p: "\<forall>kr \<in> set res. \<exists>orig v v'. orig_node d (fst kr) = Some orig
            \<and> map_of ?nd1 orig = Some v \<and> attach_records a raw (snd kr) v = Inr v'"
  proof
    fix kr assume m: "kr \<in> set res"
    with Cons.prems(2) obtain orig2 v2 v2' where o2: "orig_node d (fst kr) = Some orig2"
      "map_of nd orig2 = Some v2" "attach_records a raw (snd kr) v2 = Inr v2'" by force
    have "orig2 \<noteq> orig"
    proof
      assume "orig2 = orig"
      with assms(2) o(1) o2(1) have "k = fst kr" by blast
      with m knot show False by force
    qed
    then have "map_of ?nd1 orig2 = Some v2" using o2(2) by (simp add: update_conv')
    with o2 show "\<exists>orig v v'. orig_node d (fst kr) = Some orig
            \<and> map_of ?nd1 orig = Some v \<and> attach_records a raw (snd kr) v = Inr v'" by blast
  qed
  from Cons.IH[OF dres p] obtain out where "annotate_results a raw d res ?nd1 = Inr out" by blast
  with n1 e have "annotate_results a raw d (e # res) nd = Inr out" by simp
  then show ?case by blast
qed

lemma group_progress:
  assumes ne: "nl \<noteq> []"
    and ty: "\<forall>n \<in> set nl. curie_type n = Some t"
    and ks: "keys_sent client f t nl"
    and rk: "\<forall>n \<in> set nl. receives_ok a raw (group_records client f t nl n) (map_of nd n)"
  shows "\<exists>nd1 w1. annotate_types client a raw f ((t, nl) # rest) nd w
                    = annotate_types client a raw f rest nd1 w1
           \<and> (\<forall>n. n \<notin> set nl \<longrightarrow> map_of nd1 n = map_of nd n)"
proof -
  from ty ne have "map_of annotator_clients t \<noteq> None"
    by (metis clients_known curie_type_client last_in_set)
  then obtain cfg where cl: "map_of annotator_clients t = Some cfg" by auto
  from ty have col: "\<forall>n \<in> set nl. has_colon n" by (auto dest: curie_type_colon)
  let ?ql = "map lookup_id nl"
  let ?d = "dict_zip ?ql nl"
  have ql: "map_err query_id nl = Inr ?ql"
    using col by (intro map_err_all) (simp add: query_id_colon)
  obtain r w1 where q: "query_biothings client t ?ql f w = (r, w1)"
    by (cases "query_biothings client t ?ql f w")
  from ks obtain res where lr: "lookup_result client f t nl = Inr res"
    and keys: "\<forall>kr \<in> set res. fst kr \<in> set (map (\<lambda>m. JStr (lookup_id m)) nl)"
    by (auto simp: keys_sent_def split: sum.splits)
  have cl': "map_of annotator_clients t \<noteq> None" using cl by simp
  from query_biothings_result[OF q cl', of "\<lparr>lookups = [], warnings = []\<rparr>"] lr
  have r: "r = Inr res" by (simp add: lookup_result_def)
  have dres: "distinct (map fst res)"
    using lr cl by (auto simp: lookup_result_def query_biothings_def Let_def
        split: option.splits sum.splits dest: list2dict_distinct)
  have inj: "\<forall>k k' n. orig_node ?d k = Some n \<longrightarrow> orig_node ?d k' = Some n \<longrightarrow> k = k'"
    using orig_node_dict_zip by blast
  have p: "\<forall>kr \<in> set res. \<exists>orig v v'. orig_node ?d (fst kr) = Some orig
            \<and> map_of nd orig = Some v \<and> attach_records a raw (snd kr) v = Inr v'"
  proof
    fix kr assume m: "kr \<in> set res"
    with keys obtain m0 where m0: "m0 \<in> set nl" "fst kr = JStr (lookup_id m0)" by auto
    from orig_node_member[OF m0(1)] m0(2) obtain orig where
      o: "orig_node ?d (fst kr) = Some orig" "orig \<in> set nl" by auto
    from orig_node_dict_zip[OF o(1)] have k: "fst kr = JStr (lookup_id orig)"
      and l: "last (filter (\<lambda>x. lookup_id x = lookup_id orig) nl) = orig" by auto
    from m have "(fst kr, snd kr) \<in> set res" by simp
    with dres have "map_of res (fst kr) = Some (snd kr)" by simp
    with k l o(2) lr have "group_records client f t nl orig = Some (snd kr)"
      by (simp add: group_records_def)
    with rk o(2) obtain v where v: "map_of nd orig = Some v"
      "\<not> isl (attach_records a raw (snd kr) v)"
      by (auto simp: receives_ok_def split: option.splits)
    from v(2) obtain v' where "attach_records a raw (snd kr) v = Inr v'"
      by (cases "attach_records a raw (snd kr) v") auto
    with o(1) v(1) show "\<exists>orig v v'. orig_node ?d (fst kr) = Some orig
            \<and> map_of nd orig = Some v \<and> attach_records a raw (snd kr) v = Inr v'" by blast
  qed
  from annotate_results_progress[OF dres inj p] obtain nd1 where
    n1: "annotate_results a raw ?d res nd = Inr nd1" by blast
  have step: "annotate_types client a raw f ((t, nl) # rest) nd w
                = annotate_types client a raw f rest nd1 w1"
    using cl ne ql q r n1 by (simp add: Let_def)
  from annotate_results_Inr[OF n1 dres inj]
  have untouched: "\<And>n. (\<forall>k recs. (k, recs) \<in> set res \<longrightarrow> orig_node ?d k \<noteq> Some n)
      \<Longrightarrow> map_of nd1 n = map_of nd n" by blast
  have "\<forall>n. n \<notin> set nl \<longrightarrow> map_of nd1 n = map_of nd n"
  proof (intro allI impI)
    fix n assume "n \<notin> set nl"
    then have "\<forall>k recs. (k, recs) \<in> set res \<longrightarrow> orig_node ?d k \<noteq> Some n"
      using orig_node_dict_zip by blast
    then show "map_of nd1 n = map_of nd n" by (rule untouched)
  qed
  with step show ?thesis by blast
qed

lemma annotate_types_progress:
  assumes "distinct (map fst gs)"
    and "\<forall>g \<in> set gs. snd g \<noteq> [] \<and> (\<forall>n \<in> set (snd g). curie_type n = Some (fst g))
           \<and> keys_sent client f (fst g) (snd g)
           \<and> (\<forall>n \<in> set (snd g).
                 receives_ok a raw (group_records client f (fst g) (snd g) n) (map_of nd n))"
  shows "\<exists>out. fst (annotate_types client a raw f gs nd w) = Inr out"
  using assms
proof (induction gs arbitrary: nd w)
  case Nil
  then show ?case by simp
next
  case (Cons g gs)
  obtain t nl where g: "g = (t, nl)" by (cases g)
  from Cons.prems(2) g have ne: "nl \<noteq> []" and ty: "\<forall>n \<in> set nl. curie_type n = Some t"
    and ks: "keys_sent client f t nl"
    and rk: "\<forall>n \<in> set nl. receives_ok a raw (group_records client f t nl n) (map_of nd n)"
    by auto
  from group_progress[OF ne ty ks rk, of gs w] obtain nd1 w1 where
    step: "annotate_types client a raw f ((t, nl) # gs) nd w
             = annotate_types client a raw f gs nd1 w1"
    and same: "\<forall>n. n \<notin> set nl \<longrightarrow> map_of nd1 n = map_of nd n" by blast
  from Cons.prems(1) g have dgs: "distinct (map fst gs)" and tnot: "t \<notin> fst ` set gs" by auto
  have p: "\<forall>g' \<in> set gs. snd g' \<noteq> [] \<and> (\<forall>n \<in> set (snd g'). curie_type n = Some (fst g'))
           \<and> keys_sent client f (fst g') (snd g')
           \<and> (\<forall>n \<in> set (snd g').
                 receives_ok a raw (group_records client f (fst g') (snd g') n) (map_of nd1 n))"
  proof
    fix g' assume m: "g' \<in> set gs"
    with Cons.prems(2) have a1: "snd g' \<noteq> []"
      and a2: "\<forall>n \<in> set (snd g'). curie_type n = Some (fst g')"
      and a3: "keys_sent client f (fst g') (snd g')"
      and a4: "\<forall>n \<in> set (snd g').
                 receives_ok a raw (group_records client f (fst g') (snd g') n) (map_of nd n)"
      by auto
    from m tnot have ne': "fst g' \<noteq> t" by force
    have a4': "\<forall>n \<in> set (snd g').
                 receives_ok a raw (group_records client f (fst g') (snd g') n) (map_of nd1 n)"
    proof
      fix n assume n: "n \<in> set (snd g')"
      with a2 have "curie_type n = Some (fst g')" by simp
      with ty ne' have "n \<notin> set nl" by auto
      with same have "map_of nd1 n = map_of nd n" by simp
      with a4 n show "receives_ok a raw (group_records client f (fst g') (snd g') n) (map_of nd1 n)"
        by simp
    qed
    from a1 a2 a3 a4' show "snd g' \<noteq> [] \<and> (\<forall>n \<in> set (snd g'). curie_type n = Some (fst g'))
           \<and> keys_sent client f (fst g') (snd g')
           \<and> (\<forall>n \<in> set (snd g').
                 receives_ok a raw (group_records client f (fst g') (snd g') n) (map_of nd1 n))"
      by blast
  qed
  from Cons.IH[OF dgs p, of w1] step g show ?case by simp
qed

lemma annotate_trapi_progress:
  assumes inp: "input_nodes trapi_input = Inr nodes0"
    and col: "\<forall>n \<in> set (map fst (truncate_nodes limit nodes0)). has_colon n"
    and ks: "lookup_keys_ok client f (truncate_nodes limit nodes0)"
    and rk: "\<forall>n \<in> set (map fst (truncate_nodes limit nodes0)).
               receives_ok a raw (node_records client f (truncate_nodes limit nodes0) n)
                 (map_of (truncate_nodes limit nodes0) n)"
  shows "\<exists>out. fst (annotate_trapi client trapi_input a raw f limit w) = Inr out"
proof -
  let ?nd = "truncate_nodes limit nodes0"
  let ?keys = "map fst ?nd"
  from group_loop_colons[OF col, of "[]" w] obtain G w1 where
    gl: "group_loop [] ?keys w = (Inr G, w1)" by blast
  from group_loop_grouped[OF gl grouped_Nil] have gr: "grouped ?keys G" by simp
  have run: "annotate_trapi client trapi_input a raw f limit w
               = annotate_types client a raw f G ?nd w1"
    using inp gl by (simp add: annotate_trapi_def Let_def)
  have p: "\<forall>g \<in> set G. snd g \<noteq> [] \<and> (\<forall>n \<in> set (snd g). curie_type n = Some (fst g))
           \<and> keys_sent client f (fst g) (snd g)
           \<and> (\<forall>n \<in> set (snd g).
                 receives_ok a raw (group_records client f (fst g) (snd g) n) (map_of ?nd n))"
  proof
    fix g assume "g \<in> set G"
    then have m: "(fst g, snd g) \<in> set G" by simp
    note e = grouped_list(1)[OF gr m]
    have a1: "snd g \<noteq> []" using grouped_list(2)[OF gr m] .
    have a2: "\<forall>n \<in> set (snd g). curie_type n = Some (fst g)"
      using grouped_member(1)[OF gr m] by simp
    have "fst g \<in> fst ` set G" using m by (rule rev_image_eqI) simp
    then have "fst g \<in> set (node_types ?nd)"
      using grouped_types[OF gr] by (simp add: set_node_types)
    with ks have "keys_sent client f (fst g) (filter (\<lambda>m. curie_type m = Some (fst g)) ?keys)"
      by (simp add: lookup_keys_ok_def)
    with e have a3: "keys_sent client f (fst g) (snd g)" by simp
    have a4: "\<forall>n \<in> set (snd g).
                 receives_ok a raw (group_records client f (fst g) (snd g) n) (map_of ?nd n)"
    proof
      fix n assume n: "n \<in> set (snd g)"
      from grouped_member[OF gr m n] have t: "curie_type n = Some (fst g)" and k: "n \<in> set ?keys"
        by simp_all
      from t e have "node_records client f ?nd n = group_records client f (fst g) (snd g) n"
        by (simp add: node_records_def)
      with rk k show "receives_ok a raw (group_records client f (fst g) (snd g) n) (map_of ?nd n)"
        by force
    qed
    from a1 a2 a3 a4 show "snd g \<noteq> [] \<and> (\<forall>n \<in> set (snd g). curie_type n = Some (fst g))
           \<and> keys_sent client f (fst g) (snd g)
           \<and> (\<forall>n \<in> set (snd g).
                 receives_ok a raw (group_records client f (fst g) (snd g) n) (map_of ?nd n))"
      by blast
  qed
  from annotate_types_progress[OF grouped_distinct[OF gr] p, of w1] run show ?thesis
    by (simp only:)
qed

text \<open>
  C5: for every curie that contains a colon, with \<open>p\<close> the part before the first colon and
  \<open>l\<close> the part after it, \<^verbatim>\<open>parse_curie\<close> returns as lookup id the local part \<open>l\<close>, unless
  the prefix's rule has \<^verbatim>\<open>keep_prefix\<close> (then the whole curie), or the prefix is not in the
  table (then the type is \<^verbatim>\<open>None\<close> and the whole curie is the id).
\<close>

theorem parse_curie_lookup_id:
  assumes "CHR '':'' \<in> set curie"
  shows "\<exists>p l t i. curie = p @ CHR '':'' # l \<and> CHR '':'' \<notin> set p
           \<and> parse_curie curie True True = Inr (TypeAndId t i)
           \<and> parse_curie curie False True = Inr (IdOnly i)
           \<and> (case map_of BIOLINK_PREFIX_to_BioThings p of
                 None \<Rightarrow> t = None \<and> i = curie
               | Some r \<Rightarrow> t = rule_type r \<and> t \<noteq> None
                    \<and> i = (if rule_keep_prefix r = Some True then curie else l))"
proof -
  from assms obtain p l where c: "curie = p @ CHR '':'' # l" and p: "CHR '':'' \<notin> set p"
    by (rule colon_split)
  have sp: "split_colon curie = (p, l)" using c p by (simp add: split_colon_first)
  show ?thesis
  proof (cases "map_of BIOLINK_PREFIX_to_BioThings p")
    case None
    then show ?thesis using assms c p sp
      by (intro exI[of _ p] exI[of _ l] exI[of _ None] exI[of _ curie])
         (simp add: parse_curie_def type_falsy_def)
  next
    case (Some r)
    from table_rule[OF Some] obtain s where
      r: "rule_converter r = None" "rule_type r = Some s" "s \<noteq> []"
         "rule_keep_prefix r = None \<or> rule_keep_prefix r = Some True" by blast
    show ?thesis using assms c p sp Some r
      by (intro exI[of _ p] exI[of _ l] exI[of _ "Some s"]
            exI[of _ "if rule_keep_prefix r = Some True then curie else l"])
         (auto simp add: parse_curie_def type_falsy_def)
  qed
qed

theorem parse_curie_lookup_id_witness:
  "CHR '':'' \<in> set ''CHEBI:15377''
   \<and> (\<exists>p l t i. ''CHEBI:15377'' = p @ CHR '':'' # l \<and> CHR '':'' \<notin> set p
           \<and> parse_curie ''CHEBI:15377'' True True = Inr (TypeAndId t i)
           \<and> parse_curie ''CHEBI:15377'' False True = Inr (IdOnly i)
           \<and> (case map_of BIOLINK_PREFIX_to_BioThings p of
                 None \<Rightarrow> t = None \<and> i = ''CHEBI:15377''
               | Some r \<Rightarrow> t = rule_type r \<and> t \<noteq> None
                    \<and> i = (if rule_keep_prefix r = Some True then ''CHEBI:15377'' else l)))"
proof -
  have h: "CHR '':'' \<in> set ''CHEBI:15377''" by simp
  from h parse_curie_lookup_id [OF h] show ?thesis by (rule conjI)
qed

text \<open>
  C9: on a string without a colon \<^verbatim>\<open>parse_curie\<close> raises \<^verbatim>\<open>InvalidCurieError\<close>, whatever
  the flags, and so does \<^verbatim>\<open>annotate_curie\<close>; on a string with a colon it returns, having
  split the string at its first colon and looked the part before it up in the table.
\<close>

theorem parse_curie_colon:
  "(CHR '':'' \<notin> set curie \<longrightarrow>
      parse_curie curie return_type return_id
        = Inl (InvalidCurieError (''Invalid input curie id: '' @ curie))
      \<and> fst (annotate_curie client curie raw fields_opt w)
        = Inl (InvalidCurieError (''Invalid input curie id: '' @ curie)))
   \<and> (CHR '':'' \<in> set curie \<longrightarrow>
      (\<exists>r. parse_curie curie return_type return_id = Inr r)
      \<and> (\<exists>p l. curie = p @ CHR '':'' # l \<and> CHR '':'' \<notin> set p
             \<and> split_colon curie = (p, l)
             \<and> parse_curie curie True False
                = Inr (TypeOnly (case map_of BIOLINK_PREFIX_to_BioThings p of
                                   None \<Rightarrow> None | Some r \<Rightarrow> rule_type r))))"
proof (intro conjI impI)
  assume "CHR '':'' \<notin> set curie"
  then show "parse_curie curie return_type return_id
        = Inl (InvalidCurieError (''Invalid input curie id: '' @ curie))"
    by (simp add: parse_curie_def)
next
  assume "CHR '':'' \<notin> set curie"
  then show "fst (annotate_curie client curie raw fields_opt w)
        = Inl (InvalidCurieError (''Invalid input curie id: '' @ curie))"
    by (simp add: parse_curie_def annotate_curie_def)
next
  assume "CHR '':'' \<in> set curie"
  then show "\<exists>r. parse_curie curie return_type return_id = Inr r"
    by (simp add: parse_curie_def Let_def split: prod.splits)
next
  assume a: "CHR '':'' \<in> set curie"
  then obtain p l where c: "curie = p @ CHR '':'' # l" and p: "CHR '':'' \<notin> set p"
    by (rule colon_split)
  have sp: "split_colon curie = (p, l)" using c p by (simp add: split_colon_first)
  show "\<exists>p l. curie = p @ CHR '':'' # l \<and> CHR '':'' \<notin> set p
             \<and> split_colon curie = (p, l)
             \<and> parse_curie curie True False
                = Inr (TypeOnly (case map_of BIOLINK_PREFIX_to_BioThings p of
                                   None \<Rightarrow> None | Some r \<Rightarrow> rule_type r))"
    using a c p sp
    by (intro exI[of _ p] exI[of _ l]) (simp add: parse_curie_def)
qed

theorem parse_curie_colon_witness:
  "parse_curie ''garbage'' True True
     = Inl (InvalidCurieError ''Invalid input curie id: garbage'')
   \<and> (\<exists>r. parse_curie ''NCBIGene:1017'' True True = Inr r)"
  using parse_curie_colon [of "''garbage''" True True]
        parse_curie_colon [of "''NCBIGene:1017''" True True]
  by simp

subsection \<open>The limit\<close>

text \<open>
  C6, as the code has it: a call with \<^verbatim>\<open>limit=L\<close> that returns yields a node mapping whose
  keys are exactly the first \<open>L\<close> node ids in iteration order when \<open>L\<close> is not zero, so
  every later node is absent from the mapping; \<^verbatim>\<open>limit=0\<close> is taken as no limit and all
  the nodes are returned.
\<close>

theorem annotate_trapi_limit:
  assumes "input_nodes trapi_input = Inr nodes0"
    and "distinct (map fst nodes0)"
    and "fst (annotate_trapi client trapi_input do_append raw fields_opt (Some l) w) = Inr out"
  shows "map fst out = (if l = 0 then map fst nodes0 else take (nat l) (map fst nodes0))
    \<and> (l \<noteq> 0 \<longrightarrow> (\<forall>n \<in> set (drop (nat l) (map fst nodes0)). map_of out n = None))"
proof -
  from assms(3) obtain w' where
    run: "annotate_trapi client trapi_input do_append raw fields_opt (Some l) w = (Inr out, w')"
    by (rule run_pair)
  have t: "map fst (truncate_nodes (Some l) nodes0)
             = (if l = 0 then map fst nodes0 else take (nat l) (map fst nodes0))"
    using assms(2) by (simp add: truncate_nodes_take take_map)
  with annotate_trapi_Inr(1)[OF assms(1,2) run]
  have keys: "map fst out = (if l = 0 then map fst nodes0 else take (nat l) (map fst nodes0))"
    by simp
  have "\<forall>n \<in> set (drop (nat l) (map fst nodes0)). map_of out n = None" if "l \<noteq> 0"
  proof
    fix n assume n: "n \<in> set (drop (nat l) (map fst nodes0))"
    from assms(2)
    have "set (take (nat l) (map fst nodes0)) \<inter> set (drop (nat l) (map fst nodes0)) = {}"
      by (intro set_take_disj_set_drop_if_distinct) simp_all
    with n have "n \<notin> set (take (nat l) (map fst nodes0))" by blast
    with keys that have "n \<notin> fst ` set out" by (metis list.set_map)
    then show "map_of out n = None" by (simp add: map_of_eq_None_iff)
  qed
  with keys show ?thesis by blast
qed

theorem annotate_trapi_limit_witness:
  "input_nodes (trapi_message
       [(''NCBIGene:1'', JObj []), (''CHEBI:2'', JObj []), (''MONDO:3'', JObj [])])
     = Inr [(''NCBIGene:1'', JObj []), (''CHEBI:2'', JObj []), (''MONDO:3'', JObj [])]
   \<and> distinct (map fst [(''NCBIGene:1'', JObj []), (''CHEBI:2'', JObj []), (''MONDO:3'', JObj [])])
   \<and> fst (annotate_trapi no_hits
         (trapi_message [(''NCBIGene:1'', JObj []), (''CHEBI:2'', JObj []), (''MONDO:3'', JObj [])])
         False False None (Some 2) fresh)
       = Inr [(''NCBIGene:1'', JObj []), (''CHEBI:2'', JObj [])]
   \<and> map fst [(''NCBIGene:1'', JObj []), (''CHEBI:2'', JObj [])] = [''NCBIGene:1'', ''CHEBI:2'']
   \<and> map_of [(''NCBIGene:1'', JObj []), (''CHEBI:2'', JObj [])] ''MONDO:3'' = None"
proof -
  let ?nd = "[(''NCBIGene:1'', JObj []), (''CHEBI:2'', JObj []), (''MONDO:3'', JObj [])]"
  have h1: "input_nodes (trapi_message ?nd) = Inr ?nd" by (rule input_nodes_message)
  have h2: "distinct (map fst ?nd)" by simp
  have h3: "fst (annotate_trapi no_hits (trapi_message ?nd) False False None (Some 2) fresh)
       = Inr [(''NCBIGene:1'', JObj []), (''CHEBI:2'', JObj [])]" by code_simp
  from annotate_trapi_limit[OF h1 h2 h3] h1 h2 h3 show ?thesis by simp
qed

text \<open>With \<^verbatim>\<open>limit=0\<close> a graph of two nodes comes back whole.\<close>

theorem limit_zero_counterexample:
  "fst (annotate_trapi no_hits
         (trapi_message [(''NCBIGene:1'', JObj []), (''CHEBI:2'', JObj [])])
         False False None (Some 0) fresh)
     = Inr [(''NCBIGene:1'', JObj []), (''CHEBI:2'', JObj [])]"
  by code_simp

subsection \<open>One lookup per entity type\<close>

text \<open>
  C3, as the code has it: the types that count are those of the nodes kept by the limit.
  A call makes at most one lookup for each distinct resolved type of these nodes, and a
  call that returns has made exactly one for each of them, with all the query ids of the
  type, whatever the number of nodes.
\<close>

theorem annotate_trapi_lookup_calls:
  assumes "input_nodes trapi_input = Inr nodes0"
    and "distinct (map fst nodes0)"
  shows "\<exists>cs. lookups (snd (annotate_trapi client trapi_input do_append raw fields_opt limit w))
             = lookups w @ cs
        \<and> length cs \<le> length (node_types (truncate_nodes limit nodes0))
        \<and> (\<forall>out. fst (annotate_trapi client trapi_input do_append raw fields_opt limit w) = Inr out
             \<longrightarrow> length cs = length (node_types (truncate_nodes limit nodes0))
               \<and> distinct (map call_type cs)
               \<and> set (map call_type cs) = set (node_types (truncate_nodes limit nodes0))
               \<and> (\<forall>c \<in> set cs. call_ids c = map lookup_id
                     (filter (\<lambda>n. curie_type n = Some (call_type c))
                        (map fst (truncate_nodes limit nodes0)))))"
proof -
  let ?nd = "truncate_nodes limit nodes0"
  let ?run = "annotate_trapi client trapi_input do_append raw fields_opt limit w"
  obtain r w1 where gl: "group_loop [] (map fst ?nd) w = (r, w1)"
    by (cases "group_loop [] (map fst ?nd) w")
  have lw: "lookups w1 = lookups w" using group_loop_lookups[of "[]" "map fst ?nd" w] gl by simp
  show ?thesis
  proof (cases r)
    case (Inl e)
    with gl assms(1) have "?run = (Inl e, w1)" by (simp add: annotate_trapi_def Let_def)
    with lw show ?thesis by (intro exI[of _ "[]"]) simp
  next
    case (Inr G)
    with gl assms(1) have run: "?run = annotate_types client do_append raw fields_opt G ?nd w1"
      by (simp add: annotate_trapi_def Let_def)
    from group_loop_grouped[OF gl[unfolded Inr] grouped_Nil]
    have gr: "grouped (map fst ?nd) G" by simp
    from annotate_types_lookups[of client do_append raw fields_opt G ?nd w1] obtain cs where
      cs: "lookups (snd ?run) = lookups w @ cs" "length cs \<le> length G"
      using run lw by auto
    have le: "length cs \<le> length (node_types ?nd)" using cs(2) grouped_length[OF gr] by simp
    have "length cs = length (node_types ?nd)
               \<and> distinct (map call_type cs)
               \<and> set (map call_type cs) = set (node_types ?nd)
               \<and> (\<forall>c \<in> set cs. call_ids c = map lookup_id
                     (filter (\<lambda>n. curie_type n = Some (call_type c)) (map fst ?nd)))"
      if ok: "fst ?run = Inr out" for out
    proof -
      from ok obtain w' where r2: "?run = (Inr out, w')" by (rule run_pair)
      from annotate_trapi_Inr(4)[OF assms r2] obtain cs' where
        cs': "lookups w' = lookups w @ cs'" "distinct (map call_type cs')"
          "set (map call_type cs') = {t. \<exists>n \<in> fst ` set ?nd. curie_type n = Some t}"
          "\<forall>c \<in> set cs'. call_ids c = map lookup_id
                 (filter (\<lambda>n. curie_type n = Some (call_type c)) (map fst ?nd))"
        by blast
      from cs(1) cs'(1) r2 have e: "cs' = cs" by simp
      have "length (map call_type cs) = length (node_types ?nd)"
        using cs'(2,3) e by (metis distinct_card distinct_remdups node_types_def set_node_types)
      with cs' e show ?thesis by (simp add: set_node_types)
    qed
    with cs(1) le show ?thesis by (intro exI[of _ cs]) blast
  qed
qed

theorem annotate_trapi_lookup_calls_witness:
  "input_nodes (trapi_message
       [(''NCBIGene:1'', JObj []), (''ENSEMBL:2'', JObj []), (''CHEBI:3'', JObj [])])
     = Inr [(''NCBIGene:1'', JObj []), (''ENSEMBL:2'', JObj []), (''CHEBI:3'', JObj [])]
   \<and> distinct (map fst [(''NCBIGene:1'', JObj []), (''ENSEMBL:2'', JObj []), (''CHEBI:3'', JObj [])])
   \<and> fst (annotate_trapi no_hits
         (trapi_message [(''NCBIGene:1'', JObj []), (''ENSEMBL:2'', JObj []), (''CHEBI:3'', JObj [])])
         False False None None fresh)
       = Inr [(''NCBIGene:1'', JObj []), (''ENSEMBL:2'', JObj []), (''CHEBI:3'', JObj [])]
   \<and> length (node_types (truncate_nodes None
         [(''NCBIGene:1'', JObj []), (''ENSEMBL:2'', JObj []), (''CHEBI:3'', JObj [])])) = 2
   \<and> length (lookups (snd (annotate_trapi no_hits
         (trapi_message [(''NCBIGene:1'', JObj []), (''ENSEMBL:2'', JObj []), (''CHEBI:3'', JObj [])])
         False False None None fresh))) = 2"
proof -
  let ?nd = "[(''NCBIGene:1'', JObj []), (''ENSEMBL:2'', JObj []), (''CHEBI:3'', JObj [])]"
  have h1: "input_nodes (trapi_message ?nd) = Inr ?nd" by (rule input_nodes_message)
  have h2: "distinct (map fst ?nd)" by simp
  have k: "length (node_types (truncate_nodes None ?nd)) = 2" by code_simp
  have ok: "fst (annotate_trapi no_hits (trapi_message ?nd) False False None None fresh)
              = Inr ?nd" by code_simp
  have l0: "lookups fresh = []" by (simp add: fresh_def)
  from annotate_trapi_lookup_calls[OF h1 h2, of no_hits False False None None fresh]
    ok k l0 h1 h2
  show ?thesis by auto
qed

text \<open>
  Two nodes of two types and \<^verbatim>\<open>limit=1\<close>: the call returns the first node and has made
  one lookup, for the type of that node.
\<close>

theorem lookup_calls_limit_counterexample:
  "length (node_types [(''NCBIGene:1'', JObj []), (''CHEBI:2'', JObj [])]) = 2
   \<and> fst (annotate_trapi no_hits
         (trapi_message [(''NCBIGene:1'', JObj []), (''CHEBI:2'', JObj [])])
         False False None (Some 1) fresh)
       = Inr [(''NCBIGene:1'', JObj [])]
   \<and> map call_type (lookups (snd (annotate_trapi no_hits
         (trapi_message [(''NCBIGene:1'', JObj []), (''CHEBI:2'', JObj [])])
         False False None (Some 1) fresh)))
       = [''gene'']"
  by code_simp

subsection \<open>Appending and replacing attributes\<close>

text \<open>
  C4: in a call that returns, every node that receives records is a dict whose
  \<^verbatim>\<open>attributes\<close> end up as follows. The new envelope is
  \<^verbatim>\<open>{attribute_type_id: "biothings_annotations", value: records}\<close>, the records being
  transformed unless \<^verbatim>\<open>raw\<close>. With \<^verbatim>\<open>append\<close> the node had a list of attributes and the
  envelope is added at its end; without it the attributes become the list of the envelope
  alone.
\<close>

theorem annotate_trapi_attributes:
  assumes "input_nodes trapi_input = Inr nodes0"
    and "distinct (map fst nodes0)"
    and "fst (annotate_trapi client trapi_input do_append raw fields_opt limit w) = Inr out"
    and "node_records client fields_opt (truncate_nodes limit nodes0) n = Some recs"
  shows "\<exists>kvs recs'.
           map_of (truncate_nodes limit nodes0) n = Some (JObj kvs)
         \<and> (if raw then recs' = recs else map_err transform recs = Inr recs')
         \<and> (if do_append
            then \<exists>attrs. map_of kvs ''attributes'' = Some (JList attrs)
                   \<and> map_of out n
                       = Some (JObj (AList.update ''attributes''
                           (JList (attrs @
                              [JObj [(''attribute_type_id'', JStr ''biothings_annotations''),
                                     (''value'', JList (map JObj recs'))]])) kvs))
            else map_of out n
                   = Some (JObj (AList.update ''attributes''
                       (JList [JObj [(''attribute_type_id'', JStr ''biothings_annotations''),
                                     (''value'', JList (map JObj recs'))]]) kvs)))"
proof -
  let ?nd = "truncate_nodes limit nodes0"
  from assms(3) obtain w' where
    run: "annotate_trapi client trapi_input do_append raw fields_opt limit w = (Inr out, w')"
    by (rule run_pair)
  from annotate_trapi_Inr(2)[OF assms(1,2) run] assms(4)
  have "node_updated do_append raw (Some recs) (map_of ?nd n) (map_of out n)" by metis
  then obtain v v' where v: "map_of ?nd n = Some v"
    and at: "attach_records do_append raw recs v = Inr v'" and o: "map_of out n = Some v'"
    by (auto simp: node_updated_def split: option.splits sum.splits)
  from at obtain recs' where r: "(if \<not> raw then map_err transform recs else Inr recs) = Inr recs'"
    and a: "attach do_append (envelope recs') v = Inr v'"
    by (auto simp: attach_records_def split: sum.splits)
  from a obtain kvs where k: "v = JObj kvs"
    by (cases v) (auto simp: attach_def)
  from r have r': "if raw then recs' = recs else map_err transform recs = Inr recs'"
    by (auto split: if_splits)
  show ?thesis
  proof (cases do_append)
    case True
    with a k obtain attrs where "map_of kvs ''attributes'' = Some (JList attrs)"
      "v' = JObj (AList.update ''attributes'' (JList (attrs @ [envelope recs'])) kvs)"
      by (auto simp: attach_def split: option.splits json.splits)
    with True v k o r' show ?thesis
      by (intro exI[of _ kvs] exI[of _ recs']) (simp add: envelope_def)
  next
    case False
    with a k have "v' = JObj (AList.update ''attributes'' (JList [envelope recs']) kvs)"
      by (auto simp: attach_def)
    with False v k o r' show ?thesis
      by (intro exI[of _ kvs] exI[of _ recs']) (simp add: envelope_def)
  qed
qed

theorem annotate_trapi_attributes_witness:
  "input_nodes (trapi_message [(''NCBIGene:1017'', JObj [(''attributes'', JList [JStr ''A''])])])
     = Inr [(''NCBIGene:1017'', JObj [(''attributes'', JList [JStr ''A''])])]
   \<and> distinct (map fst [(''NCBIGene:1017'', JObj [(''attributes'', JList [JStr ''A''])])])
   \<and> fst (annotate_trapi example_client
         (trapi_message [(''NCBIGene:1017'', JObj [(''attributes'', JList [JStr ''A''])])])
         True False None None fresh)
       = Inr [(''NCBIGene:1017'',
               JObj [(''attributes'',
                      JList [JStr ''A'',
                             JObj [(''attribute_type_id'', JStr ''biothings_annotations''),
                                   (''value'', JList [JObj [(''symbol'', JStr ''S'')]])]])])]
   \<and> node_records example_client None
         (truncate_nodes None [(''NCBIGene:1017'', JObj [(''attributes'', JList [JStr ''A''])])])
         ''NCBIGene:1017''
       = Some [[(''query'', JStr ''1017''), (''_score'', JInt 1), (''symbol'', JStr ''S'')]]
   \<and> (\<exists>kvs recs'.
         map_of (truncate_nodes None
                   [(''NCBIGene:1017'', JObj [(''attributes'', JList [JStr ''A''])])])
             ''NCBIGene:1017'' = Some (JObj kvs)
       \<and> map_err transform
             [[(''query'', JStr ''1017''), (''_score'', JInt 1), (''symbol'', JStr ''S'')]]
           = Inr recs'
       \<and> (\<exists>attrs. map_of kvs ''attributes'' = Some (JList attrs)
            \<and> map_of [(''NCBIGene:1017'',
                        JObj [(''attributes'',
                               JList [JStr ''A'',
                                      JObj [(''attribute_type_id'', JStr ''biothings_annotations''),
                                            (''value'', JList [JObj [(''symbol'', JStr ''S'')]])]])])]
                  ''NCBIGene:1017''
                = Some (JObj (AList.update ''attributes''
                    (JList (attrs @
                       [JObj [(''attribute_type_id'', JStr ''biothings_annotations''),
                              (''value'', JList (map JObj recs'))]])) kvs))))"
proof -
  let ?nd = "[(''NCBIGene:1017'', JObj [(''attributes'', JList [JStr ''A''])])]"
  let ?out = "[(''NCBIGene:1017'',
               JObj [(''attributes'',
                      JList [JStr ''A'',
                             JObj [(''attribute_type_id'', JStr ''biothings_annotations''),
                                   (''value'', JList [JObj [(''symbol'', JStr ''S'')]])]])])]"
  have h1: "input_nodes (trapi_message ?nd) = Inr ?nd" by (rule input_nodes_message)
  have h2: "distinct (map fst ?nd)" by simp
  have h3: "fst (annotate_trapi example_client (trapi_message ?nd) True False None None fresh)
              = Inr ?out" by code_simp
  have h4: "node_records example_client None (truncate_nodes None ?nd) ''NCBIGene:1017''
       = Some [[(''query'', JStr ''1017''), (''_score'', JInt 1), (''symbol'', JStr ''S'')]]"
    by code_simp
  from annotate_trapi_attributes[OF h1 h2 h3 h4] h1 h2 h3 h4 show ?thesis by simp
qed

subsection \<open>Two nodes with the same query id\<close>

text \<open>
  C8: when two node ids of the same entity type have the same query id, the earlier one
  (in iteration order) is left as it was by a call that returns; the lookup for the type
  has a result, and what it holds under the shared query id goes to the last node id of
  the type with that query id.
\<close>

theorem annotate_trapi_collision:
  assumes "input_nodes trapi_input = Inr nodes0"
    and "distinct (map fst nodes0)"
    and "fst (annotate_trapi client trapi_input do_append raw fields_opt limit w) = Inr out"
    and "map fst (truncate_nodes limit nodes0) = xs @ n1 # ys @ n2 # zs"
    and "curie_type n1 = Some t" and "curie_type n2 = Some t"
    and "lookup_id n1 = lookup_id n2"
  shows "map_of out n1 = map_of (truncate_nodes limit nodes0) n1
    \<and> ((\<forall>m \<in> set zs. curie_type m = Some t \<longrightarrow> lookup_id m \<noteq> lookup_id n2) \<longrightarrow>
        (\<exists>res. lookup_result client fields_opt t
                  (filter (\<lambda>m. curie_type m = Some t) (map fst (truncate_nodes limit nodes0)))
                = Inr res
           \<and> node_updated do_append raw (map_of res (JStr (lookup_id n2)))
                (map_of (truncate_nodes limit nodes0) n2) (map_of out n2)))"
proof -
  let ?nd = "truncate_nodes limit nodes0"
  let ?keys = "map fst ?nd"
  let ?g = "filter (\<lambda>m. curie_type m = Some t) ?keys"
  from assms(3) obtain w' where
    run: "annotate_trapi client trapi_input do_append raw fields_opt limit w = (Inr out, w')"
    by (rule run_pair)
  note upd = annotate_trapi_Inr(2)[OF assms(1,2) run]
  have dk: "distinct ?keys" using assms(2) by (rule truncate_nodes_distinct)
  have same: "filter (\<lambda>m. lookup_id m = lookup_id n) ?g
                = filter (\<lambda>m. curie_type m = Some t \<and> lookup_id m = lookup_id n) ?keys" for n
    by simp
  have dk': "distinct (xs @ n1 # ys @ n2 # zs)" using dk assms(4) by simp
  have p2: "curie_type n2 = Some t \<and> lookup_id n2 = lookup_id n1" using assms(6,7) by simp
  have "last (filter (\<lambda>m. curie_type m = Some t \<and> lookup_id m = lookup_id n1)
            (xs @ n1 # ys @ n2 # zs)) \<noteq> n1"
    using dk' p2 by (rule last_filter_later)
  then have "last (filter (\<lambda>m. lookup_id m = lookup_id n1) ?g) \<noteq> n1"
    using same[of n1] assms(4) by simp
  then have "node_records client fields_opt ?nd n1 = None"
    using assms(5) by (simp add: node_records_def group_records_def split: sum.splits)
  moreover from upd
  have "node_updated do_append raw (node_records client fields_opt ?nd n1)
          (map_of ?nd n1) (map_of out n1)" by (rule spec)
  ultimately have first: "map_of out n1 = map_of ?nd n1"
    by (simp add: node_updated_def)
  have second: "\<exists>res. lookup_result client fields_opt t ?g = Inr res
           \<and> node_updated do_append raw (map_of res (JStr (lookup_id n2)))
                (map_of ?nd n2) (map_of out n2)"
    if nolater: "\<forall>m \<in> set zs. curie_type m = Some t \<longrightarrow> lookup_id m \<noteq> lookup_id n2"
  proof -
    have q2: "curie_type n2 = Some t \<and> lookup_id n2 = lookup_id n2" using assms(6) by simp
    have qz: "\<forall>m \<in> set zs. \<not> (curie_type m = Some t \<and> lookup_id m = lookup_id n2)"
      using nolater by blast
    have "last (filter (\<lambda>m. curie_type m = Some t \<and> lookup_id m = lookup_id n2)
            ((xs @ n1 # ys) @ n2 # zs)) = n2"
      using q2 qz by (rule last_filter_last)
    then have l: "last (filter (\<lambda>m. lookup_id m = lookup_id n2) ?g) = n2"
      using same[of n2] assms(4) by simp
    have mem: "n2 \<in> set ?g" using assms(4,6) by simp
    have "n2 \<in> set ?keys" by (subst assms(4)) simp
    then have "n2 \<in> fst ` set ?nd" by simp
    with annotate_trapi_Inr(6)[OF assms(1,2) run] assms(6)
    obtain res where res: "lookup_result client fields_opt t ?g = Inr res" by blast
    with l mem assms(6)
    have "node_records client fields_opt ?nd n2 = map_of res (JStr (lookup_id n2))"
      by (simp add: node_records_def group_records_def)
    moreover from upd
    have "node_updated do_append raw (node_records client fields_opt ?nd n2)
            (map_of ?nd n2) (map_of out n2)" by (rule spec)
    ultimately have "node_updated do_append raw (map_of res (JStr (lookup_id n2)))
                (map_of ?nd n2) (map_of out n2)" by simp
    with res show ?thesis by blast
  qed
  from first second show ?thesis by blast
qed

theorem annotate_trapi_collision_witness:
  "input_nodes (trapi_message [(''NCBIGene:1017'', JObj []), (''ENSEMBL:1017'', JObj [])])
     = Inr [(''NCBIGene:1017'', JObj []), (''ENSEMBL:1017'', JObj [])]
   \<and> distinct (map fst [(''NCBIGene:1017'', JObj []), (''ENSEMBL:1017'', JObj [])])
   \<and> fst (annotate_trapi example_client
         (trapi_message [(''NCBIGene:1017'', JObj []), (''ENSEMBL:1017'', JObj [])])
         False False None None fresh)
       = Inr [(''NCBIGene:1017'', JObj []),
              (''ENSEMBL:1017'',
               JObj [(''attributes'',
                      JList [JObj [(''attribute_type_id'', JStr ''biothings_annotations''),
                                   (''value'', JList [JObj [(''symbol'', JStr ''S'')],
                                                      JObj [(''symbol'', JStr ''S'')]])]])])]
   \<and> map fst (truncate_nodes None [(''NCBIGene:1017'', JObj []), (''ENSEMBL:1017'', JObj [])])
       = [] @ ''NCBIGene:1017'' # [] @ ''ENSEMBL:1017'' # []
   \<and> curie_type ''NCBIGene:1017'' = Some ''gene''
   \<and> curie_type ''ENSEMBL:1017'' = Some ''gene''
   \<and> lookup_id ''NCBIGene:1017'' = lookup_id ''ENSEMBL:1017''
   \<and> map_of [(''NCBIGene:1017'', JObj []),
              (''ENSEMBL:1017'',
               JObj [(''attributes'',
                      JList [JObj [(''attribute_type_id'', JStr ''biothings_annotations''),
                                   (''value'', JList [JObj [(''symbol'', JStr ''S'')],
                                                      JObj [(''symbol'', JStr ''S'')]])]])])]
        ''NCBIGene:1017''
       = map_of (truncate_nodes None [(''NCBIGene:1017'', JObj []), (''ENSEMBL:1017'', JObj [])])
           ''NCBIGene:1017''"
proof -
  let ?nd = "[(''NCBIGene:1017'', JObj []), (''ENSEMBL:1017'', JObj [])]"
  let ?out = "[(''NCBIGene:1017'', JObj []),
              (''ENSEMBL:1017'',
               JObj [(''attributes'',
                      JList [JObj [(''attribute_type_id'', JStr ''biothings_annotations''),
                                   (''value'', JList [JObj [(''symbol'', JStr ''S'')],
                                                      JObj [(''symbol'', JStr ''S'')]])]])])]"
  have h1: "input_nodes (trapi_message ?nd) = Inr ?nd" by (rule input_nodes_message)
  have h2: "distinct (map fst ?nd)" by simp
  have h3: "fst (annotate_trapi example_client (trapi_message ?nd) False False None None fresh)
              = Inr ?out" by code_simp
  have h4: "map fst (truncate_nodes None ?nd) = [] @ ''NCBIGene:1017'' # [] @ ''ENSEMBL:1017'' # []"
    by (simp add: truncate_nodes_def)
  have h5: "curie_type ''NCBIGene:1017'' = Some ''gene''" by code_simp
  have h6: "curie_type ''ENSEMBL:1017'' = Some ''gene''" by code_simp
  have h7: "lookup_id ''NCBIGene:1017'' = lookup_id ''ENSEMBL:1017''" by code_simp
  from annotate_trapi_collision[OF h1 h2 h3 h4 h5 h6 h7, THEN conjunct1] h1 h2 h3 h4 h5 h6 h7
  show ?thesis by (intro conjI)
qed

subsection \<open>Annotating one curie with raw\<close>

text \<open>
  C2: \<^verbatim>\<open>annotate_curie\<close> returns a mapping with the input curie as its one key. Without
  \<^verbatim>\<open>raw\<close> the value is the list of the transformed records of the curie's query id. With
  \<^verbatim>\<open>raw\<close> the records are unchanged, but the value is not their list: it is the whole
  result of \<^verbatim>\<open>query_biothings\<close>, the dict from query id to record list, as the run below
  shows for \<^verbatim>\<open>NCBIGene:1017\<close>.
\<close>

theorem annotate_curie_raw_value:
  "fst (annotate_curie example_client ''NCBIGene:1017'' True None fresh)
     = Inr [(''NCBIGene:1017'',
             ByQuery [(JStr ''1017'',
                       [[(''query'', JStr ''1017''), (''_score'', JInt 1),
                         (''symbol'', JStr ''S'')]])])]
   \<and> fst (annotate_curie example_client ''NCBIGene:1017'' False None fresh)
     = Inr [(''NCBIGene:1017'', Records [[(''symbol'', JStr ''S'')]])]"
  by code_simp

subsection \<open>Nodes that get no annotation\<close>

text \<open>
  C7: in a call that returns, a node is exactly as it was when its type is unresolved, when
  its type has no client, or when the lookup made for its type has no entry under its
  query id. And a missing entry is no cause of failure, whatever the node is and whether
  or not it has \<^verbatim>\<open>attributes\<close>: the call returns as soon as every node id has a colon,
  every lookup returns keys among the query ids sent (not necessarily all of them), and
  the annotation of each node that does receive records succeeds. Nothing is asked of the
  nodes that receive none.
\<close>

theorem annotate_trapi_untouched:
  assumes "input_nodes trapi_input = Inr nodes0"
    and "distinct (map fst nodes0)"
  shows "(\<forall>out. fst (annotate_trapi client trapi_input do_append raw fields_opt limit w) = Inr out
            \<longrightarrow> (\<forall>n. (curie_type n = None
                      \<or> (\<exists>t. curie_type n = Some t \<and> map_of annotator_clients t = None)
                      \<or> (\<exists>t res. curie_type n = Some t
                            \<and> lookup_result client fields_opt t
                                (filter (\<lambda>m. curie_type m = Some t)
                                   (map fst (truncate_nodes limit nodes0))) = Inr res
                            \<and> map_of res (JStr (lookup_id n)) = None))
                   \<longrightarrow> map_of out n = map_of (truncate_nodes limit nodes0) n))
     \<and> ((\<forall>n \<in> set (map fst (truncate_nodes limit nodes0)). has_colon n)
         \<and> lookup_keys_ok client fields_opt (truncate_nodes limit nodes0)
         \<and> (\<forall>n \<in> set (map fst (truncate_nodes limit nodes0)).
               receives_ok do_append raw
                 (node_records client fields_opt (truncate_nodes limit nodes0) n)
                 (map_of (truncate_nodes limit nodes0) n))
        \<longrightarrow> (\<exists>out. fst (annotate_trapi client trapi_input do_append raw fields_opt limit w)
                    = Inr out))"
proof (intro conjI allI impI)
  let ?nd = "truncate_nodes limit nodes0"
  fix out n
  assume ok: "fst (annotate_trapi client trapi_input do_append raw fields_opt limit w) = Inr out"
    and c: "curie_type n = None
          \<or> (\<exists>t. curie_type n = Some t \<and> map_of annotator_clients t = None)
          \<or> (\<exists>t res. curie_type n = Some t
                \<and> lookup_result client fields_opt t
                    (filter (\<lambda>m. curie_type m = Some t) (map fst ?nd)) = Inr res
                \<and> map_of res (JStr (lookup_id n)) = None)"
  from ok obtain w' where
    run: "annotate_trapi client trapi_input do_append raw fields_opt limit w = (Inr out, w')"
    by (rule run_pair)
  have known: "\<not> (\<exists>t. curie_type n = Some t \<and> map_of annotator_clients t = None)"
    using clients_known curie_type_client by blast
  have "node_records client fields_opt ?nd n = None"
  proof (cases "curie_type n")
    case None
    then show ?thesis by (simp add: node_records_def)
  next
    case (Some t)
    with c known obtain res where
      "lookup_result client fields_opt t (filter (\<lambda>m. curie_type m = Some t) (map fst ?nd)) = Inr res"
      "map_of res (JStr (lookup_id n)) = None" by auto
    with Some show ?thesis by (simp add: node_records_def group_records_def)
  qed
  moreover from annotate_trapi_Inr(2)[OF assms run]
  have "node_updated do_append raw (node_records client fields_opt ?nd n)
          (map_of ?nd n) (map_of out n)" by (rule spec)
  ultimately show "map_of out n = map_of ?nd n" by (simp add: node_updated_def)
next
  let ?nd = "truncate_nodes limit nodes0"
  assume wf: "(\<forall>n \<in> set (map fst ?nd). has_colon n)
         \<and> lookup_keys_ok client fields_opt ?nd
         \<and> (\<forall>n \<in> set (map fst ?nd).
               receives_ok do_append raw (node_records client fields_opt ?nd n) (map_of ?nd n))"
  then have col: "\<forall>n \<in> set (map fst ?nd). has_colon n"
    and ks: "lookup_keys_ok client fields_opt ?nd"
    and rk: "\<forall>n \<in> set (map fst ?nd).
               receives_ok do_append raw (node_records client fields_opt ?nd n) (map_of ?nd n)"
    by blast+
  from annotate_trapi_progress[OF assms(1) col ks rk]
  show "\<exists>out. fst (annotate_trapi client trapi_input do_append raw fields_opt limit w) = Inr out" .
qed

theorem annotate_trapi_untouched_witness:
  "input_nodes (trapi_message
       [(''NCBIGene:1'', JObj [(''attributes'', JList [])]), (''NCBIGene:2'', JObj []),
        (''FOO:3'', JObj [])])
     = Inr [(''NCBIGene:1'', JObj [(''attributes'', JList [])]), (''NCBIGene:2'', JObj []),
            (''FOO:3'', JObj [])]
   \<and> distinct (map fst
         [(''NCBIGene:1'', JObj [(''attributes'', JList [])]), (''NCBIGene:2'', JObj []),
          (''FOO:3'', JObj [])])
   \<and> list_all has_colon
         (map fst (truncate_nodes None
            [(''NCBIGene:1'', JObj [(''attributes'', JList [])]), (''NCBIGene:2'', JObj []),
             (''FOO:3'', JObj [])]))
   \<and> lookup_keys_ok first_id_client None
         (truncate_nodes None
            [(''NCBIGene:1'', JObj [(''attributes'', JList [])]), (''NCBIGene:2'', JObj []),
             (''FOO:3'', JObj [])])
   \<and> list_all
         (\<lambda>n. receives_ok True False
                (node_records first_id_client None
                   (truncate_nodes None
                      [(''NCBIGene:1'', JObj [(''attributes'', JList [])]),
                       (''NCBIGene:2'', JObj []), (''FOO:3'', JObj [])]) n)
                (map_of
                   (truncate_nodes None
                      [(''NCBIGene:1'', JObj [(''attributes'', JList [])]),
                       (''NCBIGene:2'', JObj []), (''FOO:3'', JObj [])]) n))
         (map fst (truncate_nodes None
            [(''NCBIGene:1'', JObj [(''attributes'', JList [])]), (''NCBIGene:2'', JObj []),
             (''FOO:3'', JObj [])]))
   \<and> lacks_attributes (JObj [])
   \<and> fst (annotate_trapi first_id_client
         (trapi_message
            [(''NCBIGene:1'', JObj [(''attributes'', JList [])]), (''NCBIGene:2'', JObj []),
             (''FOO:3'', JObj [])])
         True False None None fresh)
       = Inr [(''NCBIGene:1'',
               JObj [(''attributes'',
                      JList [JObj [(''attribute_type_id'', JStr ''biothings_annotations''),
                                   (''value'', JList [JObj [(''symbol'', JStr ''S'')]])]])]),
              (''NCBIGene:2'', JObj []),
              (''FOO:3'', JObj [])]
   \<and> curie_type ''FOO:3'' = None
   \<and> curie_type ''NCBIGene:2'' = Some ''gene''
   \<and> lookup_result first_id_client None ''gene''
         (filter (\<lambda>m. curie_type m = Some ''gene'')
            (map fst (truncate_nodes None
               [(''NCBIGene:1'', JObj [(''attributes'', JList [])]), (''NCBIGene:2'', JObj []),
                (''FOO:3'', JObj [])])))
       = Inr [(JStr ''1'',
               [[(''query'', JStr ''1''), (''_score'', JInt 1), (''symbol'', JStr ''S'')]])]
   \<and> map_of [(JStr ''1'',
               [[(''query'', JStr ''1''), (''_score'', JInt 1), (''symbol'', JStr ''S'')]])]
         (JStr (lookup_id ''NCBIGene:2'')) = None
   \<and> map_of [(''NCBIGene:1'',
               JObj [(''attributes'',
                      JList [JObj [(''attribute_type_id'', JStr ''biothings_annotations''),
                                   (''value'', JList [JObj [(''symbol'', JStr ''S'')]])]])]),
              (''NCBIGene:2'', JObj []),
              (''FOO:3'', JObj [])] ''NCBIGene:2''
       = map_of (truncate_nodes None
            [(''NCBIGene:1'', JObj [(''attributes'', JList [])]), (''NCBIGene:2'', JObj []),
             (''FOO:3'', JObj [])]) ''NCBIGene:2''
   \<and> map_of [(''NCBIGene:1'',
               JObj [(''attributes'',
                      JList [JObj [(''attribute_type_id'', JStr ''biothings_annotations''),
                                   (''value'', JList [JObj [(''symbol'', JStr ''S'')]])]])]),
              (''NCBIGene:2'', JObj []),
              (''FOO:3'', JObj [])] ''FOO:3''
       = map_of (truncate_nodes None
            [(''NCBIGene:1'', JObj [(''attributes'', JList [])]), (''NCBIGene:2'', JObj []),
             (''FOO:3'', JObj [])]) ''FOO:3''
   \<and> (\<exists>out. fst (annotate_trapi first_id_client
         (trapi_message
            [(''NCBIGene:1'', JObj [(''attributes'', JList [])]), (''NCBIGene:2'', JObj []),
             (''FOO:3'', JObj [])])
         True False None None fresh) = Inr out)"
proof -
  let ?nd = "[(''NCBIGene:1'', JObj [(''attributes'', JList [])]), (''NCBIGene:2'', JObj []),
              (''FOO:3'', JObj [])]"
  let ?out = "[(''NCBIGene:1'',
               JObj [(''attributes'',
                      JList [JObj [(''attribute_type_id'', JStr ''biothings_annotations''),
                                   (''value'', JList [JObj [(''symbol'', JStr ''S'')]])]])]),
              (''NCBIGene:2'', JObj []),
              (''FOO:3'', JObj [])]"
  let ?res = "[(JStr ''1'',
               [[(''query'', JStr ''1''), (''_score'', JInt 1), (''symbol'', JStr ''S'')]])]"
  let ?run = "annotate_trapi first_id_client (trapi_message ?nd) True False None None fresh"
  have h1: "input_nodes (trapi_message ?nd) = Inr ?nd" by (rule input_nodes_message)
  have h2: "distinct (map fst ?nd)" by simp
  have h3: "\<forall>n \<in> set (map fst (truncate_nodes None ?nd)). has_colon n" by code_simp
  have h4: "lookup_keys_ok first_id_client None (truncate_nodes None ?nd)" by code_simp
  have h5: "\<forall>n \<in> set (map fst (truncate_nodes None ?nd)).
              receives_ok True False
                (node_records first_id_client None (truncate_nodes None ?nd) n)
                (map_of (truncate_nodes None ?nd) n)" by code_simp
  have h5a: "lacks_attributes (JObj [])" by code_simp
  have h6: "fst ?run = Inr ?out" by code_simp
  have h7: "curie_type ''FOO:3'' = None" by code_simp
  have h8: "curie_type ''NCBIGene:2'' = Some ''gene''" by code_simp
  have h9: "lookup_result first_id_client None ''gene''
         (filter (\<lambda>m. curie_type m = Some ''gene'') (map fst (truncate_nodes None ?nd)))
           = Inr ?res"
    by code_simp
  have h10: "map_of ?res (JStr (lookup_id ''NCBIGene:2'')) = None" by code_simp
  note T = annotate_trapi_untouched[OF h1 h2, of first_id_client True False None None fresh]
  from T h6 h8 h9 h10
  have c1: "map_of ?out ''NCBIGene:2'' = map_of (truncate_nodes None ?nd) ''NCBIGene:2''"
    by blast
  from T h6 h7 have c2: "map_of ?out ''FOO:3'' = map_of (truncate_nodes None ?nd) ''FOO:3''"
    by blast
  from T h3 h4 h5 have c3: "\<exists>out. fst ?run = Inr out" by blast
  have g3: "list_all has_colon (map fst (truncate_nodes None ?nd))"
    using h3 by (simp add: list_all_iff)
  have g5: "list_all
         (\<lambda>n. receives_ok True False
                (node_records first_id_client None (truncate_nodes None ?nd) n)
                (map_of (truncate_nodes None ?nd) n))
         (map fst (truncate_nodes None ?nd))"
    using h5 by (simp only: list_all_iff)
  from h1 h2 g3 h4 g5 h5a h6 h7 h8 h9 h10 c1 c2 c3 show ?thesis by (intro conjI)
qed

text \<open>
  A single node without \<^verbatim>\<open>attributes\<close> and without a hit, with \<^verbatim>\<open>append\<close>: the call
  returns it as it was.
\<close>

lemma append_no_hit_example:
  "fst (annotate_trapi no_hits (trapi_message [(''NCBIGene:1'', JObj [])])
         True False None None fresh)
     = Inr [(''NCBIGene:1'', JObj [])]"
  by code_simp

subsection \<open>Appending to a node without attributes\<close>

text \<open>
  C10: with \<^verbatim>\<open>append=true\<close>, when a node that receives records is a dict with no
  \<^verbatim>\<open>attributes\<close> key, the call never returns a node mapping; and when nothing else can
  fail (every node id has a colon, every node is a dict whose attributes, if any, are a
  list, every lookup keeps the contract) the exception is \<^verbatim>\<open>KeyError\<close>, which is neither
  \<^verbatim>\<open>TRAPIInputError\<close> nor \<^verbatim>\<open>InvalidCurieError\<close>.
\<close>

theorem annotate_trapi_append_no_attributes:
  assumes "input_nodes trapi_input = Inr nodes0"
    and "distinct (map fst nodes0)"
    and "node_records client fields_opt (truncate_nodes limit nodes0) n = Some recs"
    and "map_of (truncate_nodes limit nodes0) n = Some (JObj kvs)"
    and "map_of kvs ''attributes'' = None"
  shows "(\<forall>out. fst (annotate_trapi client trapi_input True raw fields_opt limit w) \<noteq> Inr out)
     \<and> ((\<forall>n \<in> set (map fst (truncate_nodes limit nodes0)). has_colon n)
         \<and> (\<forall>nv \<in> set (truncate_nodes limit nodes0). node_ok (snd nv))
         \<and> results_ok client fields_opt raw (truncate_nodes limit nodes0)
        \<longrightarrow> fst (annotate_trapi client trapi_input True raw fields_opt limit w) = Inl KeyError)"
proof -
  let ?nd = "truncate_nodes limit nodes0"
  let ?run = "annotate_trapi client trapi_input True raw fields_opt limit w"
  have never: "fst ?run \<noteq> Inr out" for out
  proof
    assume "fst ?run = Inr out"
    then obtain w' where run: "?run = (Inr out, w')" by (rule run_pair)
    from annotate_trapi_Inr(2)[OF assms(1,2) run]
    have "node_updated True raw (node_records client fields_opt ?nd n)
            (map_of ?nd n) (map_of out n)" by (rule spec)
    with assms(3,4) obtain v' where "attach_records True raw recs (JObj kvs) = Inr v'"
      by (auto simp: node_updated_def split: sum.splits)
    with assms(5) show False
      by (auto simp: attach_records_def attach_def split: sum.splits if_splits)
  qed
  have "fst ?run = Inl KeyError"
    if wf: "(\<forall>n \<in> set (map fst ?nd). has_colon n)
         \<and> (\<forall>nv \<in> set ?nd. node_ok (snd nv))
         \<and> results_ok client fields_opt raw ?nd"
  proof -
    from wf have col: "\<forall>n \<in> set (map fst ?nd). has_colon n"
      and nok: "\<forall>nv \<in> set ?nd. node_ok (snd nv)"
      and rok: "results_ok client fields_opt raw ?nd" by blast+
    from annotate_trapi_ok[OF assms(1) col nok rok, of True w] never
    show ?thesis by blast
  qed
  with never show ?thesis by blast
qed

theorem annotate_trapi_append_no_attributes_witness:
  "input_nodes (trapi_message
       [(''NCBIGene:1'', JObj [(''attributes'', JList [])]), (''NCBIGene:2'', JObj [])])
     = Inr [(''NCBIGene:1'', JObj [(''attributes'', JList [])]), (''NCBIGene:2'', JObj [])]
   \<and> distinct (map fst
         [(''NCBIGene:1'', JObj [(''attributes'', JList [])]), (''NCBIGene:2'', JObj [])])
   \<and> node_records example_client None
         (truncate_nodes None
            [(''NCBIGene:1'', JObj [(''attributes'', JList [])]), (''NCBIGene:2'', JObj [])])
         ''NCBIGene:2''
       = Some [[(''query'', JStr ''2''), (''_score'', JInt 1), (''symbol'', JStr ''S'')]]
   \<and> map_of (truncate_nodes None
         [(''NCBIGene:1'', JObj [(''attributes'', JList [])]), (''NCBIGene:2'', JObj [])])
         ''NCBIGene:2'' = Some (JObj [])
   \<and> map_of ([] :: (string \<times> json) list) ''attributes'' = None
   \<and> list_all has_colon
         (map fst (truncate_nodes None
            [(''NCBIGene:1'', JObj [(''attributes'', JList [])]), (''NCBIGene:2'', JObj [])]))
   \<and> list_all (\<lambda>nv. node_ok (snd nv))
         (truncate_nodes None
            [(''NCBIGene:1'', JObj [(''attributes'', JList [])]), (''NCBIGene:2'', JObj [])])
   \<and> results_ok example_client None True
         (truncate_nodes None
            [(''NCBIGene:1'', JObj [(''attributes'', JList [])]), (''NCBIGene:2'', JObj [])])
   \<and> fst (annotate_trapi example_client
         (trapi_message
            [(''NCBIGene:1'', JObj [(''attributes'', JList [])]), (''NCBIGene:2'', JObj [])])
         True True None None fresh)
       = Inl KeyError"
proof -
  let ?nd = "[(''NCBIGene:1'', JObj [(''attributes'', JList [])]), (''NCBIGene:2'', JObj [])]"
  have h1: "input_nodes (trapi_message ?nd) = Inr ?nd" by (rule input_nodes_message)
  have h2: "distinct (map fst ?nd)" by simp
  have h3: "node_records example_client None (truncate_nodes None ?nd) ''NCBIGene:2''
       = Some [[(''query'', JStr ''2''), (''_score'', JInt 1), (''symbol'', JStr ''S'')]]"
    by code_simp
  have h4: "map_of (truncate_nodes None ?nd) ''NCBIGene:2'' = Some (JObj [])" by code_simp
  have h5: "map_of ([] :: (string \<times> json) list) ''attributes'' = None" by simp
  have h6: "\<forall>n \<in> set (map fst (truncate_nodes None ?nd)). has_colon n" by code_simp
  have h7: "\<forall>nv \<in> set (truncate_nodes None ?nd). node_ok (snd nv)" by code_simp
  have h8: "results_ok example_client None True (truncate_nodes None ?nd)" by code_simp
  from annotate_trapi_append_no_attributes[OF h1 h2 h3 h4 h5, of True fresh] h6 h7 h8
  have c: "fst (annotate_trapi example_client (trapi_message ?nd) True True None None fresh)
             = Inl KeyError" by blast
  have g6: "list_all has_colon (map fst (truncate_nodes None ?nd))"
    using h6 by (simp add: list_all_iff)
  have g7: "list_all (\<lambda>nv. node_ok (snd nv)) (truncate_nodes None ?nd)"
    using h7 by (simp add: list_all_iff)
  from h1 h2 h3 h4 h5 g6 g7 h8 c show ?thesis by (intro conjI)
qed

text \<open>
  The same run step by step: the first node gets its envelope, then the second node raises
  \<^verbatim>\<open>KeyError\<close>, so the first node has been changed when the call is aborted.
\<close>

lemma append_partial_mutation_example:
  "lookup_result example_client None ''gene'' [''NCBIGene:1'', ''NCBIGene:2'']
     = Inr [(JStr ''1'', [[(''query'', JStr ''1''), (''_score'', JInt 1), (''symbol'', JStr ''S'')]]),
            (JStr ''2'', [[(''query'', JStr ''2''), (''_score'', JInt 1), (''symbol'', JStr ''S'')]])]
   \<and> annotate_node True True (dict_zip [''1'', ''2''] [''NCBIGene:1'', ''NCBIGene:2''])
         (JStr ''1'') [[(''query'', JStr ''1''), (''_score'', JInt 1), (''symbol'', JStr ''S'')]]
         [(''NCBIGene:1'', JObj [(''attributes'', JList [])]), (''NCBIGene:2'', JObj [])]
     = Inr [(''NCBIGene:1'',
             JObj [(''attributes'',
                    JList [JObj [(''attribute_type_id'', JStr ''biothings_annotations''),
                                 (''value'',
                                  JList [JObj [(''query'', JStr ''1''), (''_score'', JInt 1),
                                               (''symbol'', JStr ''S'')]])]])]),
            (''NCBIGene:2'', JObj [])]
   \<and> annotate_node True True (dict_zip [''1'', ''2''] [''NCBIGene:1'', ''NCBIGene:2''])
         (JStr ''2'') [[(''query'', JStr ''2''), (''_score'', JInt 1), (''symbol'', JStr ''S'')]]
         [(''NCBIGene:1'',
           JObj [(''attributes'',
                  JList [JObj [(''attribute_type_id'', JStr ''biothings_annotations''),
                               (''value'',
                                JList [JObj [(''query'', JStr ''1''), (''_score'', JInt 1),
                                             (''symbol'', JStr ''S'')]])]])]),
          (''NCBIGene:2'', JObj [])]
     = Inl KeyError"
  by code_simp

subsection \<open>Node ids with no entity type\<close>

text \<open>
  C1, as the code has it: a node id that has a colon and whose prefix gives no entity type
  is skipped with a warning and never aborts the batch. The call on the graph without the
  skipped nodes ends with the same exception or with the same node mapping minus the
  skipped nodes, after the same lookups; a call that returns leaves the skipped nodes as
  they were and has logged one warning for each of them. A node id without a colon is
  not skipped: the call ends with \<^verbatim>\<open>InvalidCurieError\<close> before any lookup.
\<close>

theorem annotate_trapi_skips_unresolved:
  assumes "input_nodes trapi_input = Inr nodes0"
    and "distinct (map fst nodes0)"
    and "input_nodes trapi_input'
           = Inr (filter (\<lambda>nv. \<not> skipped (fst nv)) (truncate_nodes limit nodes0))"
  shows "fst (annotate_trapi client trapi_input' do_append raw fields_opt None w)
           = map_sum id (filter (\<lambda>nv. \<not> skipped (fst nv)))
               (fst (annotate_trapi client trapi_input do_append raw fields_opt limit w))
     \<and> lookups (snd (annotate_trapi client trapi_input' do_append raw fields_opt None w))
           = lookups (snd (annotate_trapi client trapi_input do_append raw fields_opt limit w))
     \<and> (\<forall>out. fst (annotate_trapi client trapi_input do_append raw fields_opt limit w) = Inr out
           \<longrightarrow> (\<forall>n. skipped n \<longrightarrow> map_of out n = map_of (truncate_nodes limit nodes0) n)
             \<and> warnings (snd (annotate_trapi client trapi_input do_append raw fields_opt limit w))
                 = warnings w @ map skip_warning
                     (filter skipped (map fst (truncate_nodes limit nodes0))))
     \<and> ((\<exists>n \<in> set (map fst (truncate_nodes limit nodes0)). \<not> has_colon n)
           \<longrightarrow> (\<exists>m. fst (annotate_trapi client trapi_input do_append raw fields_opt limit w)
                      = Inl (InvalidCurieError m))
             \<and> lookups (snd (annotate_trapi client trapi_input do_append raw fields_opt limit w))
                 = lookups w)"
proof -
  let ?P = "\<lambda>nv. \<not> skipped (fst nv)"
  let ?nd = "truncate_nodes limit nodes0"
  let ?keys = "map fst ?nd"
  let ?run = "annotate_trapi client trapi_input do_append raw fields_opt limit w"
  let ?run' = "annotate_trapi client trapi_input' do_append raw fields_opt None w"
  have keys': "map fst (truncate_nodes None (filter ?P ?nd)) = filter (\<lambda>n. \<not> skipped n) ?keys"
    by (simp add: truncate_nodes_def filter_map comp_def)
  obtain r w1 where gl: "group_loop [] ?keys w = (r, w1)" by (cases "group_loop [] ?keys w")
  obtain r' w1' where gl': "group_loop [] (filter (\<lambda>n. \<not> skipped n) ?keys) w = (r', w1')"
    by (cases "group_loop [] (filter (\<lambda>n. \<not> skipped n) ?keys) w")
  from group_loop_filter[of "[]" ?keys w w] gl gl' have rr: "r' = r" by simp
  have lw: "lookups w1 = lookups w" using group_loop_lookups[of "[]" ?keys w] gl by simp
  have lw': "lookups w1' = lookups w"
    using group_loop_lookups[of "[]" "filter (\<lambda>n. \<not> skipped n) ?keys" w] gl' by simp
  have sim: "fst ?run' = map_sum id (filter ?P) (fst ?run) \<and> lookups (snd ?run') = lookups (snd ?run)"
  proof (cases r)
    case (Inl e)
    with gl gl' rr assms(1,3) keys' have "?run = (Inl e, w1)" "?run' = (Inl e, w1')"
      by (simp_all add: annotate_trapi_def Let_def)
    with lw lw' show ?thesis by simp
  next
    case (Inr G)
    with gl assms(1) have run: "?run = annotate_types client do_append raw fields_opt G ?nd w1"
      by (simp add: annotate_trapi_def Let_def)
    from Inr gl' rr assms(3) keys'
    have run': "?run' = annotate_types client do_append raw fields_opt G (filter ?P ?nd) w1'"
      by (simp add: annotate_trapi_def Let_def truncate_nodes_def)
    from group_loop_grouped[OF gl[unfolded Inr] grouped_Nil] have gr: "grouped ?keys G" by simp
    have pg: "\<forall>g \<in> set G. \<forall>n \<in> set (snd g). \<not> skipped n"
    proof (intro ballI)
      fix g n assume "g \<in> set G" "n \<in> set (snd g)"
      then have "(fst g, snd g) \<in> set G" by simp
      from grouped_member(1)[OF gr this \<open>n \<in> set (snd g)\<close>] show "\<not> skipped n"
        by (simp add: skipped_def)
    qed
    from annotate_types_calls[of client do_append raw fields_opt G ?nd] obtain R cs where
      R: "\<forall>w. annotate_types client do_append raw fields_opt G ?nd w
              = (R, w\<lparr>lookups := lookups w @ cs\<rparr>)" by blast
    from annotate_types_filter[OF pg, of client do_append raw fields_opt ?nd w1'] R
    have "annotate_types client do_append raw fields_opt G (filter ?P ?nd) w1'
            = (map_sum id (filter ?P) R, w1'\<lparr>lookups := lookups w1' @ cs\<rparr>)" by simp
    with run run' R lw lw' show ?thesis by simp
  qed
  have succ: "(\<forall>n. skipped n \<longrightarrow> map_of out n = map_of ?nd n)
             \<and> warnings (snd ?run) = warnings w @ map skip_warning (filter skipped ?keys)"
    if ok: "fst ?run = Inr out" for out
  proof -
    from ok obtain w' where run: "?run = (Inr out, w')" by (rule run_pair)
    note A = annotate_trapi_Inr[OF assms(1,2) run]
    have u: "map_of out n = map_of ?nd n" if "skipped n" for n
    proof -
      from that have "node_records client fields_opt ?nd n = None"
        by (simp add: skipped_def node_records_def)
      moreover from A(2)
      have "node_updated do_append raw (node_records client fields_opt ?nd n)
              (map_of ?nd n) (map_of out n)" by (rule spec)
      ultimately show ?thesis by (simp add: node_updated_def)
    qed
    have "filter (\<lambda>n. curie_type n = None) ?keys = filter skipped ?keys"
      using A(5) by (intro filter_cong) (auto simp: skipped_def)
    with A(3) run u show ?thesis by simp
  qed
  have bad: "(\<exists>m. fst ?run = Inl (InvalidCurieError m)) \<and> lookups (snd ?run) = lookups w"
    if nc: "\<exists>n \<in> set ?keys. \<not> has_colon n"
  proof -
    from group_loop_no_colon[OF nc, of "[]" w] gl obtain m where "r = Inl (InvalidCurieError m)"
      by auto
    with gl assms(1) have "?run = (Inl (InvalidCurieError m), w1)"
      by (simp add: annotate_trapi_def Let_def)
    with lw show ?thesis by simp
  qed
  from sim succ bad show ?thesis by blast
qed

theorem annotate_trapi_skips_unresolved_witness:
  "input_nodes (trapi_message [(''FOO:1'', JObj []), (''NCBIGene:2'', JObj [])])
     = Inr [(''FOO:1'', JObj []), (''NCBIGene:2'', JObj [])]
   \<and> distinct (map fst [(''FOO:1'', JObj []), (''NCBIGene:2'', JObj [])])
   \<and> input_nodes (trapi_message [(''NCBIGene:2'', JObj [])])
     = Inr (filter (\<lambda>nv. \<not> skipped (fst nv))
             (truncate_nodes None [(''FOO:1'', JObj []), (''NCBIGene:2'', JObj [])]))
   \<and> skipped ''FOO:1''
   \<and> fst (annotate_trapi example_client
         (trapi_message [(''FOO:1'', JObj []), (''NCBIGene:2'', JObj [])])
         False False None None fresh)
       = Inr [(''FOO:1'', JObj []),
              (''NCBIGene:2'',
               JObj [(''attributes'',
                      JList [JObj [(''attribute_type_id'', JStr ''biothings_annotations''),
                                   (''value'', JList [JObj [(''symbol'', JStr ''S'')]])]])])]
   \<and> fst (annotate_trapi example_client (trapi_message [(''NCBIGene:2'', JObj [])])
         False False None None fresh)
       = map_sum id (filter (\<lambda>nv. \<not> skipped (fst nv)))
           (fst (annotate_trapi example_client
              (trapi_message [(''FOO:1'', JObj []), (''NCBIGene:2'', JObj [])])
              False False None None fresh))
   \<and> warnings (snd (annotate_trapi example_client
         (trapi_message [(''FOO:1'', JObj []), (''NCBIGene:2'', JObj [])])
         False False None None fresh))
       = warnings fresh @ map skip_warning
           (filter skipped
              (map fst (truncate_nodes None [(''FOO:1'', JObj []), (''NCBIGene:2'', JObj [])])))"
proof -
  let ?nd = "[(''FOO:1'', JObj []), (''NCBIGene:2'', JObj [])]"
  let ?out = "[(''FOO:1'', JObj []),
              (''NCBIGene:2'',
               JObj [(''attributes'',
                      JList [JObj [(''attribute_type_id'', JStr ''biothings_annotations''),
                                   (''value'', JList [JObj [(''symbol'', JStr ''S'')]])]])])]"
  have h1: "input_nodes (trapi_message ?nd) = Inr ?nd" by (rule input_nodes_message)
  have h2: "distinct (map fst ?nd)" by simp
  have h3: "input_nodes (trapi_message [(''NCBIGene:2'', JObj [])])
     = Inr (filter (\<lambda>nv. \<not> skipped (fst nv)) (truncate_nodes None ?nd))" by code_simp
  have h4: "skipped ''FOO:1''" by code_simp
  have h5: "fst (annotate_trapi example_client (trapi_message ?nd) False False None None fresh)
              = Inr ?out" by code_simp
  note T = annotate_trapi_skips_unresolved[OF h1 h2 h3, of example_client False False None fresh]
  from T have c1: "fst (annotate_trapi example_client (trapi_message [(''NCBIGene:2'', JObj [])])
         False False None None fresh)
       = map_sum id (filter (\<lambda>nv. \<not> skipped (fst nv)))
           (fst (annotate_trapi example_client (trapi_message ?nd) False False None None fresh))"
    by blast
  from T h5 have c2: "warnings (snd (annotate_trapi example_client (trapi_message ?nd)
         False False None None fresh))
       = warnings fresh @ map skip_warning (filter skipped (map fst (truncate_nodes None ?nd)))"
    by blast
  from h1 h2 h3 h4 h5 c1 c2 show ?thesis by (intro conjI)
qed

text \<open>A graph with the node id \<^verbatim>\<open>garbage\<close>: the whole call is aborted.\<close>

theorem no_colon_aborts_counterexample:
  "fst (annotate_trapi example_client
         (trapi_message [(''NCBIGene:1'', JObj []), (''garbage'', JObj [])])
         False False None None fresh)
     = Inl (InvalidCurieError ''Invalid input curie id: garbage'')"
  by code_simp

end
